theory Spec2Isabelle
  imports Main "HOL-Library.Word"
begin

section \<open>Strings and the host\<close>

text \<open>
  A JavaScript string is the list of its UTF-16 code units, each a 16-bit number; \<open>length\<close>
  is the string's \<open>.length\<close>. A code unit between \<open>U+D800\<close> and \<open>U+DBFF\<close> followed by one between
  \<open>U+DC00\<close> and \<open>U+DFFF\<close> is a surrogate pair, the two code units of one code point.
\<close>

type_synonym code_unit = "16 word"
type_synonym jstring = "code_unit list"

definition is_high :: "code_unit \<Rightarrow> bool" where
  "is_high c = (0xD800 \<le> c \<and> c \<le> 0xDBFF)"

definition is_low :: "code_unit \<Rightarrow> bool" where
  "is_low c = (0xDC00 \<le> c \<and> c \<le> 0xDFFF)"

text \<open>
  \<open>String.prototype.toLowerCase\<close> and \<open>String.prototype.localeCompare\<close> belong to the host,
  not to the repository. The first follows the case mappings of Unicode, which depend on
  the letters around a letter (a capital sigma at the end of a word becomes the final
  sigma); the second follows the collation of the host's locale. Both are parameters of
  the model.
\<close>

record host =
  toLowerCase :: "jstring \<Rightarrow> jstring"
  localeCompare :: "jstring \<Rightarrow> jstring \<Rightarrow> int"

text \<open>
  \<open>trim\<close> removes the white space and the line terminators of ECMAScript from both ends:
  \<open>U+0009\<close> to \<open>U+000D\<close>, \<open>U+0020\<close>, \<open>U+00A0\<close>, \<open>U+1680\<close>, \<open>U+2000\<close> to \<open>U+200A\<close>, \<open>U+2028\<close>,
  \<open>U+2029\<close>, \<open>U+202F\<close>, \<open>U+205F\<close>, \<open>U+3000\<close> and \<open>U+FEFF\<close>.
\<close>

definition isWhitespace :: "code_unit \<Rightarrow> bool" where
  "isWhitespace c =
     ((0x09 \<le> c \<and> c \<le> 0x0D) \<or> c = 0x20 \<or> c = 0xA0 \<or> c = 0x1680
      \<or> (0x2000 \<le> c \<and> c \<le> 0x200A) \<or> c = 0x2028 \<or> c = 0x2029 \<or> c = 0x202F
      \<or> c = 0x205F \<or> c = 0x3000 \<or> c = 0xFEFF)"

definition trim :: "jstring \<Rightarrow> jstring" where
  "trim s = rev (dropWhile isWhitespace (rev (dropWhile isWhitespace s)))"

text \<open>\<open>s.split('\n')\<close>: the pieces between line feeds; the empty string gives one empty piece.\<close>

fun split_lines :: "jstring \<Rightarrow> jstring list" where
  "split_lines [] = [[]]"
| "split_lines (c # cs) =
     (if c = 0x0A then [] # split_lines cs
      else (case split_lines cs of
              [] \<Rightarrow> [[c]]
            | l # ls \<Rightarrow> (c # l) # ls))"

section \<open>The dictionary (\<open>init\<close>)\<close>

text \<open>
  The three module-level variables of \<open>script.js\<close>: the set of complete words, the set of
  prefixes, and the readiness flag.
\<close>

record lexicon =
  dictionary :: "jstring set"
  prefixDictionary :: "jstring set"
  dictionaryLoaded :: bool

definition unloaded :: lexicon where
  "unloaded = \<lparr>dictionary = {}, prefixDictionary = {}, dictionaryLoaded = False\<rparr>"

text \<open>
  The inner loop \<open>for (const char of word) { prefix += char; prefixDictionary.add(prefix) }\<close>,
  started with \<open>prefix = ''\<close>. The iteration of a string steps by code point: a surrogate
  pair comes as one \<open>char\<close> of two code units, every other code unit on its own.
\<close>

fun add_prefixes :: "jstring \<Rightarrow> jstring \<Rightarrow> jstring set \<Rightarrow> jstring set" where
  "add_prefixes prefix [] ps = ps"
| "add_prefixes prefix [c] ps = insert (prefix @ [c]) ps"
| "add_prefixes prefix (c # d # cs) ps =
     (if is_high c \<and> is_low d
      then add_prefixes (prefix @ [c, d]) cs (insert (prefix @ [c, d]) ps)
      else add_prefixes (prefix @ [c]) (d # cs) (insert (prefix @ [c]) ps))"

text \<open>The body of the \<open>forEach\<close> over the lines of the word list.\<close>

definition add_word :: "host \<Rightarrow> jstring \<Rightarrow> lexicon \<Rightarrow> lexicon" where
  "add_word h line lx =
     (let word = toLowerCase h (trim line)
      in if word \<noteq> []
         then lx\<lparr>dictionary := insert word (dictionary lx),
                 prefixDictionary := add_prefixes [] word (prefixDictionary lx)\<rparr>
         else lx)"

text \<open>\<open>init\<close>, from the decompressed text of the word list on.\<close>

definition init :: "host \<Rightarrow> jstring \<Rightarrow> lexicon" where
  "init h content =
     (fold (add_word h) (split_lines content) unloaded)\<lparr>dictionaryLoaded := True\<rparr>"

section \<open>The grid and the result map\<close>

text \<open>
  A grid is an array of rows, each an array of one-character strings (what \<open>parseGrid\<close>
  produces with \<open>row.split('')\<close>); rows may differ in length. A path element \<open>{x, y}\<close> is
  the pair \<open>(x, y)\<close>, \<open>x\<close> the row and \<open>y\<close> the column.
\<close>

type_synonym grid = "code_unit list list"
type_synonym coord = "int \<times> int"
type_synonym path = "coord list"

text \<open>
  The visited set holds the strings \<open>`${nx},${ny}`\<close>: the two numbers in decimal digits, a
  minus sign before a negative one, with a comma between them. (JavaScript writes integers
  this way below \<open>10^21\<close>; the indices of an array are below \<open>2^32\<close>.) A key holds
  digits, minus signs and a comma only and is written with the characters of \<open>string\<close>.
\<close>

fun digits :: "nat \<Rightarrow> string" where
  "digits n =
     (if n < 10 then [char_of (48 + n)] else digits (n div 10) @ [char_of (48 + n mod 10)])"

declare digits.simps [simp del]

definition number_string :: "int \<Rightarrow> string" where
  "number_string i = (if i < 0 then CHR ''-'' # digits (nat (- i)) else digits (nat i))"

definition key :: "int \<Rightarrow> int \<Rightarrow> string" where
  "key nx ny = number_string nx @ '','' @ number_string ny"

text \<open>
  \<open>words\<close> is a \<open>Map\<close>: its entries are kept in insertion order, and \<open>set\<close> on a key that is
  present replaces the value where the entry stands.
\<close>

type_synonym words = "(jstring \<times> path) list"

fun words_set :: "jstring \<Rightarrow> path \<Rightarrow> words \<Rightarrow> words" where
  "words_set k v [] = [(k, v)]"
| "words_set k v ((k', v') # ws) =
     (if k' = k then (k, v) # ws else (k', v') # words_set k v ws)"

text \<open>
  Reading \<open>grid[nx]\<close> or \<open>row[ny]\<close> outside the array gives \<open>undefined\<close>, and the property
  access that follows (\<open>.length\<close>, \<open>[ny]\<close>, \<open>.trim()\<close>) throws a \<open>TypeError\<close>.
\<close>

datatype error = TypeError

definition row_at :: "grid \<Rightarrow> int \<Rightarrow> error + code_unit list" where
  "row_at g i = (if 0 \<le> i \<and> i < int (length g) then Inr (g ! nat i) else Inl TypeError)"

definition cell_at :: "code_unit list \<Rightarrow> int \<Rightarrow> error + code_unit" where
  "cell_at row j = (if 0 \<le> j \<and> j < int (length row) then Inr (row ! nat j) else Inl TypeError)"

definition cell :: "grid \<Rightarrow> int \<Rightarrow> int \<Rightarrow> error + code_unit" where
  "cell g i j = (case row_at g i of Inl e \<Rightarrow> Inl e | Inr row \<Rightarrow> cell_at row j)"

definition directions :: "(int \<times> int) list" where
  "directions = [(-1, -1), (-1, 0), (-1, 1), (0, -1), (0, 1), (1, -1), (1, 0), (1, 1)]"

text \<open>
  The test of the \<open>continue\<close> in the loop over the directions, its disjuncts evaluated from
  left to right and only as far as needed.
\<close>

definition skip :: "grid \<Rightarrow> string set \<Rightarrow> int \<Rightarrow> int \<Rightarrow> error + bool" where
  "skip g visited nx ny =
     (if nx < 0 \<or> ny < 0 \<or> nx \<ge> int (length g) then Inr True
      else case row_at g nx of
             Inl e \<Rightarrow> Inl e
           | Inr row \<Rightarrow>
               if ny \<ge> int (length row) then Inr True
               else case cell_at row ny of
                      Inl e \<Rightarrow> Inl e
                    | Inr c \<Rightarrow> Inr (trim [c] = [] \<or> key nx ny \<in> visited))"

text \<open>The positions of the grid and their keys, for the termination argument.\<close>

definition cells :: "grid \<Rightarrow> coord set" where
  "cells g = {(int i, int j) | i j. i < length g \<and> j < length (g ! i)}"

definition cell_keys :: "grid \<Rightarrow> string set" where
  "cell_keys g = (\<lambda>p. key (fst p) (snd p)) ` cells g"

lemma finite_cells: "finite (cells g)"
proof -
  have "cells g \<subseteq> (\<lambda>(i, j). (int i, int j)) ` ({..<length g} \<times> {..<Max (set (map length g)) + 1})"
  proof
    fix p assume "p \<in> cells g"
    then obtain i j where p: "p = (int i, int j)" and i: "i < length g" and j: "j < length (g ! i)"
      by (auto simp: cells_def)
    have "length (g ! i) \<in> set (map length g)" using i by simp
    then have "length (g ! i) \<le> Max (set (map length g))" by simp
    with j have "j < Max (set (map length g)) + 1" by simp
    with i p show "p \<in> (\<lambda>(i, j). (int i, int j)) ` ({..<length g} \<times> {..<Max (set (map length g)) + 1})"
      by auto
  qed
  then show ?thesis by (rule finite_subset) simp
qed

lemma skip_False_cells:
  assumes "skip g visited nx ny = Inr False"
  shows "(nx, ny) \<in> cells g" and "key nx ny \<notin> visited"
proof -
  from assms have b: "0 \<le> nx" "0 \<le> ny" "nx < int (length g)"
    by (auto simp: skip_def split: if_splits)
  with assms have c: "ny < int (length (g ! nat nx))" and v: "key nx ny \<notin> visited"
    by (auto simp: skip_def row_at_def cell_at_def split: if_splits)
  from b c have "(int (nat nx), int (nat ny)) \<in> cells g"
    unfolding cells_def by (intro CollectI exI[of _ "nat nx"] exI[of _ "nat ny"]) auto
  with b show "(nx, ny) \<in> cells g" by simp
  from v show "key nx ny \<notin> visited" .
qed

lemma card_cells_insert:
  assumes "skip g visited nx ny = Inr False"
  shows "card (cell_keys g - insert (key nx ny) visited) < card (cell_keys g - visited)"
proof -
  from skip_False_cells[OF assms] have "key nx ny \<in> cell_keys g - visited"
    by (force simp: cell_keys_def)
  moreover have "cell_keys g - insert (key nx ny) visited = (cell_keys g - visited) - {key nx ny}"
    by auto
  moreover have "finite (cell_keys g - visited)" using finite_cells by (simp add: cell_keys_def)
  ultimately show ?thesis using card_Diff1_less[of "cell_keys g - visited" "key nx ny"] by simp
qed

section \<open>The search (\<open>findWords\<close>)\<close>

text \<open>
  \<open>dfs\<close> with the map \<open>words\<close> it updates passed in and returned; \<open>dfs_loop\<close> is its
  \<open>for (const [dx, dy] of directions)\<close> loop over the directions still to try.
\<close>

function dfs :: "host \<Rightarrow> grid \<Rightarrow> lexicon \<Rightarrow> int \<Rightarrow> int \<Rightarrow> path \<Rightarrow> jstring \<Rightarrow> string set \<Rightarrow> words
                 \<Rightarrow> error + words"
  and dfs_loop :: "host \<Rightarrow> grid \<Rightarrow> lexicon \<Rightarrow> int \<Rightarrow> int \<Rightarrow> path \<Rightarrow> jstring \<Rightarrow> string set
                    \<Rightarrow> (int \<times> int) list
                    \<Rightarrow> words \<Rightarrow> error + words"
where
  "dfs h g lx x y path currentWord visited ws =
     (let normalized = toLowerCase h currentWord
      in if normalized \<notin> prefixDictionary lx then Inr ws
         else dfs_loop h g lx x y path currentWord visited directions
                (if normalized \<in> dictionary lx then words_set currentWord path ws else ws))"
| "dfs_loop h g lx x y path currentWord visited [] ws = Inr ws"
| "dfs_loop h g lx x y path currentWord visited ((dx, dy) # ds) ws =
     (case skip g visited (x + dx) (y + dy) of
        Inl e \<Rightarrow> Inl e
      | Inr True \<Rightarrow> dfs_loop h g lx x y path currentWord visited ds ws
      | Inr False \<Rightarrow>
          (case cell g (x + dx) (y + dy) of
             Inl e \<Rightarrow> Inl e
           | Inr c \<Rightarrow>
               (case dfs h g lx (x + dx) (y + dy) (path @ [(x + dx, y + dy)]) (currentWord @ [c])
                          (insert (key (x + dx) (y + dy)) visited) ws of
                  Inl e \<Rightarrow> Inl e
                | Inr ws' \<Rightarrow> dfs_loop h g lx x y path currentWord visited ds ws')))"
  by pat_completeness auto

termination
  apply (relation "measures
     [\<lambda>s. case s of Inl (h, g, lx, x, y, p, wd, vis, ws) \<Rightarrow> card (cell_keys g - vis)
               | Inr (h, g, lx, x, y, p, wd, vis, ds, ws) \<Rightarrow> card (cell_keys g - vis),
      \<lambda>s. case s of Inl (h, g, lx, x, y, p, wd, vis, ws) \<Rightarrow> Suc (length directions)
               | Inr (h, g, lx, x, y, p, wd, vis, ds, ws) \<Rightarrow> length ds]")
     apply (simp_all add: card_cells_insert)
  done

text \<open>
  The two nested \<open>forEach\<close> loops that start a search at every cell that is not blank:
  \<open>start_row\<close> runs over the cells of row \<open>i\<close> from column \<open>j\<close> on, \<open>start_rows\<close> over the
  rows from row \<open>i\<close> on.
\<close>

fun start_row :: "host \<Rightarrow> grid \<Rightarrow> lexicon \<Rightarrow> int \<Rightarrow> int \<Rightarrow> code_unit list \<Rightarrow> words \<Rightarrow> error + words"
where
  "start_row h g lx i j [] ws = Inr ws"
| "start_row h g lx i j (c # cs) ws =
     (if trim [c] \<noteq> []
      then (case dfs h g lx i j [(i, j)] [c] {key i j} ws of
              Inl e \<Rightarrow> Inl e
            | Inr ws' \<Rightarrow> start_row h g lx i (j + 1) cs ws')
      else start_row h g lx i (j + 1) cs ws)"

fun start_rows :: "host \<Rightarrow> grid \<Rightarrow> lexicon \<Rightarrow> int \<Rightarrow> code_unit list list \<Rightarrow> words \<Rightarrow> error + words"
where
  "start_rows h g lx i [] ws = Inr ws"
| "start_rows h g lx i (row # rows) ws =
     (case start_row h g lx i 0 row ws of
        Inl e \<Rightarrow> Inl e
      | Inr ws' \<Rightarrow> start_rows h g lx (i + 1) rows ws')"

text \<open>
  The comparator of the final sort,
  \<open>(a, b) => a[0].length - b[0].length || a[0].localeCompare(b[0])\<close>, for a given
  \<open>localeCompare\<close>.
\<close>

definition compare_entries ::
  "(jstring \<Rightarrow> jstring \<Rightarrow> int) \<Rightarrow> jstring \<times> path \<Rightarrow> jstring \<times> path \<Rightarrow> int" where
  "compare_entries compare a b =
     (if int (length (fst a)) - int (length (fst b)) \<noteq> 0
      then int (length (fst a)) - int (length (fst b))
      else compare (fst a) (fst b))"

text \<open>
  \<open>Array.prototype.sort\<close> is stable: elements that compare equal keep their order. For a
  consistent comparator its result is the one stable sorted arrangement of the array, which
  insertion from the right computes.
\<close>

fun insert_sorted :: "('a \<Rightarrow> 'a \<Rightarrow> int) \<Rightarrow> 'a \<Rightarrow> 'a list \<Rightarrow> 'a list" where
  "insert_sorted cmp a [] = [a]"
| "insert_sorted cmp a (b # bs) =
     (if cmp a b \<le> 0 then a # b # bs else b # insert_sorted cmp a bs)"

definition array_sort :: "('a \<Rightarrow> 'a \<Rightarrow> int) \<Rightarrow> 'a list \<Rightarrow> 'a list" where
  "array_sort cmp xs = foldr (insert_sorted cmp) xs []"

text \<open>
  \<open>findWords\<close>. The dictionary it reads from the module-level variables is the argument
  \<open>lx\<close>; the sets are only tested for membership, never written. The host is the
  argument \<open>h\<close>.
\<close>

definition findWords :: "host \<Rightarrow> lexicon \<Rightarrow> grid \<Rightarrow> error + words" where
  "findWords h lx g =
     (case start_rows h g lx 0 g [] of
        Inl e \<Rightarrow> Inl e
      | Inr ws \<Rightarrow> Inr (array_sort (compare_entries (localeCompare h)) ws))"


section \<open>The invocations of \<open>dfs\<close>\<close>

text \<open>
  To speak about the order in which paths are discovered and about the depth of the
  recursion, the invocations of \<open>dfs\<close> are listed in the order in which they are entered,
  each with its arguments and the number of \<open>dfs\<close> frames below it on the stack. The
  functions follow \<open>dfs\<close> and \<open>dfs_loop\<close> line by line; where a read of the grid would
  throw the list ends, a case that never arises (\<open>skip_no_error\<close>, \<open>skip_False_cell\<close>).
  Lemma \<open>dfs_by_calls\<close> ties the list to \<open>dfs\<close>: the map \<open>dfs\<close> returns is the map it was
  given, changed by the invocations of the list in their order.
\<close>

record invocation =
  depth :: nat
  at_x :: int
  at_y :: int
  the_path :: path
  the_word :: jstring
  the_visited :: "string set"

function dfs_calls :: "host \<Rightarrow> grid \<Rightarrow> lexicon \<Rightarrow> nat \<Rightarrow> int \<Rightarrow> int \<Rightarrow> path \<Rightarrow> jstring \<Rightarrow> string set
                       \<Rightarrow> invocation list"
  and dfs_loop_calls :: "host \<Rightarrow> grid \<Rightarrow> lexicon \<Rightarrow> nat \<Rightarrow> int \<Rightarrow> int \<Rightarrow> path \<Rightarrow> jstring \<Rightarrow> string set
                       \<Rightarrow> (int \<times> int) list \<Rightarrow> invocation list"
where
  "dfs_calls h g lx d x y path currentWord visited =
     \<lparr>depth = d, at_x = x, at_y = y, the_path = path, the_word = currentWord,
      the_visited = visited\<rparr> #
     (if toLowerCase h currentWord \<notin> prefixDictionary lx then []
      else dfs_loop_calls h g lx d x y path currentWord visited directions)"
| "dfs_loop_calls h g lx d x y path currentWord visited [] = []"
| "dfs_loop_calls h g lx d x y path currentWord visited ((dx, dy) # ds) =
     (case skip g visited (x + dx) (y + dy) of
        Inl e \<Rightarrow> []
      | Inr True \<Rightarrow> dfs_loop_calls h g lx d x y path currentWord visited ds
      | Inr False \<Rightarrow>
          (case cell g (x + dx) (y + dy) of
             Inl e \<Rightarrow> []
           | Inr c \<Rightarrow>
               dfs_calls h g lx (Suc d) (x + dx) (y + dy) (path @ [(x + dx, y + dy)])
                 (currentWord @ [c]) (insert (key (x + dx) (y + dy)) visited)
               @ dfs_loop_calls h g lx d x y path currentWord visited ds))"
  by pat_completeness auto

termination
  apply (relation "measures
     [\<lambda>s. case s of Inl (h, g, lx, d, x, y, p, wd, vis) \<Rightarrow> card (cell_keys g - vis)
               | Inr (h, g, lx, d, x, y, p, wd, vis, ds) \<Rightarrow> card (cell_keys g - vis),
      \<lambda>s. case s of Inl (h, g, lx, d, x, y, p, wd, vis) \<Rightarrow> Suc (length directions)
               | Inr (h, g, lx, d, x, y, p, wd, vis, ds) \<Rightarrow> length ds]")
     apply (simp_all add: card_cells_insert)
  done

fun start_row_calls :: "host \<Rightarrow> grid \<Rightarrow> lexicon \<Rightarrow> int \<Rightarrow> int \<Rightarrow> code_unit list \<Rightarrow> invocation list"
where
  "start_row_calls h g lx i j [] = []"
| "start_row_calls h g lx i j (c # cs) =
     (if trim [c] \<noteq> []
      then dfs_calls h g lx 0 i j [(i, j)] [c] {key i j} @ start_row_calls h g lx i (j + 1) cs
      else start_row_calls h g lx i (j + 1) cs)"

fun start_rows_calls :: "host \<Rightarrow> grid \<Rightarrow> lexicon \<Rightarrow> int \<Rightarrow> code_unit list list \<Rightarrow> invocation list"
where
  "start_rows_calls h g lx i [] = []"
| "start_rows_calls h g lx i (row # rows) =
     start_row_calls h g lx i 0 row @ start_rows_calls h g lx (i + 1) rows"

definition findWords_calls :: "host \<Rightarrow> grid \<Rightarrow> lexicon \<Rightarrow> invocation list" where
  "findWords_calls h g lx = start_rows_calls h g lx 0 g"

text \<open>
  What one invocation does to \<open>words\<close> before it loops over the directions: past the
  prefix test, \<open>words.set(currentWord, path)\<close> if the lowercased word is in the dictionary.
\<close>

definition records :: "host \<Rightarrow> lexicon \<Rightarrow> invocation \<Rightarrow> bool" where
  "records h lx c =
     (toLowerCase h (the_word c) \<in> prefixDictionary lx
      \<and> toLowerCase h (the_word c) \<in> dictionary lx)"

definition apply_call :: "host \<Rightarrow> lexicon \<Rightarrow> invocation \<Rightarrow> words \<Rightarrow> words" where
  "apply_call h lx c ws =
     (if records h lx c then words_set (the_word c) (the_path c) ws else ws)"

text \<open>The paths discovered, in the order of their discovery, each with the word it spells.\<close>

definition discoveries :: "host \<Rightarrow> grid \<Rightarrow> lexicon \<Rightarrow> (jstring \<times> path) list" where
  "discoveries h g lx =
     map (\<lambda>c. (the_word c, the_path c)) (filter (records h lx) (findWords_calls h g lx))"

section \<open>Notions used to state the properties\<close>

text \<open>
  Prefix closure as the specification states it: every prefix of length 1 to \<open>length w\<close>
  of every word \<open>w\<close> of \<open>dictionary\<close> is in \<open>prefixDictionary\<close>.
\<close>

definition prefix_closed :: "lexicon \<Rightarrow> bool" where
  "prefix_closed lx =
     (\<forall>w \<in> dictionary lx. \<forall>k. 1 \<le> k \<and> k \<le> length w \<longrightarrow> take k w \<in> prefixDictionary lx)"

text \<open>
  The prefix of length \<open>k\<close> of \<open>w\<close> ends inside a surrogate pair: its last code unit is the
  first half of a pair whose second half is the next code unit of \<open>w\<close>.
\<close>

definition cuts_pair :: "jstring \<Rightarrow> nat \<Rightarrow> bool" where
  "cuts_pair w k = (0 < k \<and> k < length w \<and> is_high (w ! (k - 1)) \<and> is_low (w ! k))"

text \<open>
  Prefix closure as \<open>init\<close> establishes it: every prefix that does not end inside a
  surrogate pair.
\<close>

definition boundary_prefixes :: "jstring \<Rightarrow> jstring \<Rightarrow> jstring set" where
  "boundary_prefixes pre w = {pre @ take k w | k. 1 \<le> k \<and> k \<le> length w \<and> \<not> cuts_pair w k}"

definition boundary_closed :: "lexicon \<Rightarrow> bool" where
  "boundary_closed lx =
     (\<forall>w \<in> dictionary lx. \<forall>k. 1 \<le> k \<and> k \<le> length w \<and> \<not> cuts_pair w k
         \<longrightarrow> take k w \<in> prefixDictionary lx)"

text \<open>A usable cell: a position inside the grid (inside its own row) whose letter is not blank.\<close>

definition usable :: "grid \<Rightarrow> coord \<Rightarrow> bool" where
  "usable g p =
     (0 \<le> fst p \<and> fst p < int (length g) \<and> 0 \<le> snd p \<and> snd p < int (length (g ! nat (fst p)))
      \<and> trim [g ! nat (fst p) ! nat (snd p)] \<noteq> [])"

text \<open>The usable cells in row-major order; their number is the length of the list.\<close>

definition usable_cells :: "grid \<Rightarrow> coord list" where
  "usable_cells g =
     concat (map (\<lambda>i. map (\<lambda>j. (int i, int j))
                         (filter (\<lambda>j. trim [g ! i ! j] \<noteq> []) [0..<length (g ! i)]))
                 [0..<length g])"

text \<open>Two cells are adjacent when the second is the first moved by one of the 8 offsets.\<close>

definition adjacent :: "coord \<Rightarrow> coord \<Rightarrow> bool" where
  "adjacent p q = ((fst q - fst p, snd q - snd p) \<in> set directions)"

fun chain :: "path \<Rightarrow> bool" where
  "chain [] = True"
| "chain [p] = True"
| "chain (p # q # ps) = (adjacent p q \<and> chain (q # ps))"

text \<open>The letters of the grid along a path.\<close>

definition spell :: "grid \<Rightarrow> path \<Rightarrow> jstring" where
  "spell g p = map (\<lambda>c. g ! nat (fst c) ! nat (snd c)) p"

text \<open>A simple adjacent path through usable cells.\<close>

definition simple_path :: "grid \<Rightarrow> path \<Rightarrow> bool" where
  "simple_path g p = (p \<noteq> [] \<and> distinct p \<and> list_all (usable g) p \<and> chain p)"

text \<open>The number that a string of decimal digits stands for.\<close>

definition digits_value :: "string \<Rightarrow> nat" where
  "digits_value s = foldl (\<lambda>a c. 10 * a + (of_char c - 48)) 0 s"

text \<open>The keys of the cells of a path.\<close>

definition keys_of :: "path \<Rightarrow> string set" where
  "keys_of p = (\<lambda>c. key (fst c) (snd c)) ` set p"

text \<open>
  What holds of the arguments of every invocation of \<open>dfs\<close> that \<open>findWords\<close> causes.
\<close>

definition node_ok :: "grid \<Rightarrow> invocation \<Rightarrow> bool" where
  "node_ok g c =
     (simple_path g (the_path c) \<and> last (the_path c) = (at_x c, at_y c)
      \<and> the_visited c = keys_of (the_path c) \<and> the_word c = spell g (the_path c)
      \<and> length (the_path c) = Suc (depth c))"

text \<open>A comparator that is total and transitive as an order.\<close>

definition consistent :: "('a \<Rightarrow> 'a \<Rightarrow> int) \<Rightarrow> bool" where
  "consistent cmp =
     ((\<forall>a b. cmp a b \<le> 0 \<or> cmp b a \<le> 0) \<and> (\<forall>a b c. cmp a b \<le> 0 \<and> cmp b c \<le> 0 \<longrightarrow> cmp a c \<le> 0))"

subsection \<open>Stand-ins for the host\<close>

text \<open>
  The theorems below hold for every host. To run the model on an input, and to show what
  a host can do, the two functions of the host need stand-ins.

  The code units of a string of ASCII characters.
\<close>

definition utf16 :: "string \<Rightarrow> jstring" where
  "utf16 s = map of_char s"

text \<open>
  Comparison by code units: the first position where the strings differ decides, and a
  proper prefix comes first.
\<close>

fun ordinal_compare :: "jstring \<Rightarrow> jstring \<Rightarrow> int" where
  "ordinal_compare [] [] = 0"
| "ordinal_compare [] (b # bs) = -1"
| "ordinal_compare (a # as) [] = 1"
| "ordinal_compare (a # as) (b # bs) =
     (if a < b then -1 else if b < a then 1 else ordinal_compare as bs)"

text \<open>
  \<open>toLowerCase\<close> as Unicode has it on strings of letters of Basic Latin, Latin-1 and
  Greek: a capital letter (\<open>A\<close> to \<open>Z\<close>, \<open>U+00C0\<close> to \<open>U+00DE\<close> without the multiplication
  sign, \<open>U+0391\<close> to \<open>U+03A9\<close>) becomes the letter 32 code units above, except that a
  capital sigma \<open>U+03A3\<close> with a letter before it and none after it becomes the final
  sigma \<open>U+03C2\<close>; every other code unit stays (\<open>"\u0391\u03A3".toLowerCase()\<close> is
  \<open>"\u03B1\u03C2"\<close>, and \<open>"\u0391\u03A3\u0391".toLowerCase()\<close> is \<open>"\u03B1\u03C3\u03B1"\<close>).
\<close>

definition lower_unit :: "code_unit \<Rightarrow> code_unit" where
  "lower_unit c =
     (if (0x41 \<le> c \<and> c \<le> 0x5A) \<or> (0xC0 \<le> c \<and> c \<le> 0xDE \<and> c \<noteq> 0xD7)
         \<or> (0x391 \<le> c \<and> c \<le> 0x3A9 \<and> c \<noteq> 0x3A2)
      then c + 32 else c)"

definition letter :: "code_unit \<Rightarrow> bool" where
  "letter c =
     ((0x41 \<le> c \<and> c \<le> 0x5A) \<or> (0x61 \<le> c \<and> c \<le> 0x7A)
      \<or> (0xC0 \<le> c \<and> c \<le> 0xFF \<and> c \<noteq> 0xD7 \<and> c \<noteq> 0xF7)
      \<or> (0x391 \<le> c \<and> c \<le> 0x3A9 \<and> c \<noteq> 0x3A2) \<or> (0x3B1 \<le> c \<and> c \<le> 0x3C9))"

fun lower_from :: "bool \<Rightarrow> jstring \<Rightarrow> jstring" where
  "lower_from after_letter [] = []"
| "lower_from after_letter (c # cs) =
     (if c = 0x3A3 \<and> after_letter \<and> \<not> (cs \<noteq> [] \<and> letter (hd cs)) then 0x3C2 else lower_unit c)
     # lower_from (letter c) cs"

definition lower_letters :: "jstring \<Rightarrow> jstring" where
  "lower_letters s = lower_from False s"

text \<open>
  An alphabetical collation, as the hosts built on ICU give for letters: the strings are
  compared without regard to case first, and strings that differ only in case are ordered
  lower case first (\<open>"a".localeCompare("B")\<close> is negative there, while the code unit of
  \<open>B\<close>, 66, is below that of \<open>a\<close>, 97).
\<close>

definition alphabetical_compare :: "jstring \<Rightarrow> jstring \<Rightarrow> int" where
  "alphabetical_compare a b =
     (if ordinal_compare (map lower_unit a) (map lower_unit b) \<noteq> 0
      then ordinal_compare (map lower_unit a) (map lower_unit b)
      else ordinal_compare b a)"

definition ordinal_host :: host where
  "ordinal_host = \<lparr>toLowerCase = lower_letters, localeCompare = ordinal_compare\<rparr>"

definition alphabetical_host :: host where
  "alphabetical_host = \<lparr>toLowerCase = lower_letters, localeCompare = alphabetical_compare\<rparr>"

section \<open>Lemmas\<close>

subsection \<open>The keys of the visited set\<close>


lemma digits_value_digits: "digits_value (digits n) = n"
proof (induction n rule: digits.induct)
  case (1 n)
  show ?case
  proof (cases "n < 10")
    case True
    then show ?thesis by (subst digits.simps) (simp add: digits_value_def)
  next
    case False
    with 1 have "digits_value (digits (n div 10)) = n div 10" by simp
    moreover have "(48 + n mod 10) mod 256 = 48 + n mod 10" by simp
    ultimately show ?thesis using False
      by (subst digits.simps) (simp add: digits_value_def)
  qed
qed

lemma digits_inject: "digits m = digits n \<Longrightarrow> m = n"
  using digits_value_digits by metis

lemma digits_chars: "c \<in> set (digits n) \<Longrightarrow> 48 \<le> (of_char c :: nat)"
proof (induction n rule: digits.induct)
  case (1 n)
  show ?case
  proof (cases "n < 10")
    case True
    with 1(2) show ?thesis by (subst (asm) digits.simps) auto
  next
    case False
    have "(48 + n mod 10) mod 256 = 48 + n mod 10" by simp
    with False 1 show ?thesis by (subst (asm) (2) digits.simps) auto
  qed
qed

lemma digits_nonempty: "digits n \<noteq> []"
  by (subst digits.simps) simp

lemma digits_no_comma: "CHR '','' \<notin> set (digits n)"
proof
  assume "CHR '','' \<in> set (digits n)"
  from digits_chars[OF this] show False by simp
qed

lemma number_string_chars: "c \<in> set (number_string i) \<Longrightarrow> c \<noteq> CHR '',''"
  using digits_no_comma by (auto simp: number_string_def split: if_splits)

lemma number_string_inject: "number_string i = number_string j \<Longrightarrow> i = j"
proof -
  assume e: "number_string i = number_string j"
  have nd: "CHR ''-'' # xs \<noteq> digits n" for xs n
  proof
    assume "CHR ''-'' # xs = digits n"
    then have "CHR ''-'' \<in> set (digits n)" by (metis list.set_intros(1))
    from digits_chars[OF this] show False by simp
  qed
  show "i = j"
  proof (cases "i < 0"; cases "j < 0")
    assume "i < 0" "j < 0"
    with e have "digits (nat (- i)) = digits (nat (- j))" by (simp add: number_string_def)
    then have "nat (- i) = nat (- j)" by (rule digits_inject)
    with \<open>i < 0\<close> \<open>j < 0\<close> show ?thesis by simp
  next
    assume "i < 0" "\<not> j < 0"
    with e nd[of "digits (nat (- i))" "nat j"] show ?thesis by (simp add: number_string_def)
  next
    assume "\<not> i < 0" "j < 0"
    with e nd[of "digits (nat (- j))" "nat i"] show ?thesis by (simp add: number_string_def)
  next
    assume "\<not> i < 0" "\<not> j < 0"
    with e have "digits (nat i) = digits (nat j)" by (simp add: number_string_def)
    then have "nat i = nat j" by (rule digits_inject)
    with \<open>\<not> i < 0\<close> \<open>\<not> j < 0\<close> show ?thesis by simp
  qed
qed

lemma split_at_separator:
  assumes "xs @ c # ys = xs' @ c # ys'" and "c \<notin> set xs" and "c \<notin> set xs'"
  shows "xs = xs' \<and> ys = ys'"
  using assms
proof (induction xs arbitrary: xs')
  case Nil
  then show ?case by (cases xs') auto
next
  case (Cons a xs)
  then show ?case by (cases xs') auto
qed

lemma key_inject: "key a b = key c d \<longleftrightarrow> a = c \<and> b = d"
proof
  assume "key a b = key c d"
  then have "number_string a @ CHR '','' # number_string b = number_string c @ CHR '','' # number_string d"
    by (simp add: key_def)
  moreover have "CHR '','' \<notin> set (number_string a)" "CHR '','' \<notin> set (number_string c)"
    using number_string_chars by blast+
  ultimately have "number_string a = number_string c \<and> number_string b = number_string d"
    by (rule split_at_separator)
  then show "a = c \<and> b = d" using number_string_inject by blast
qed simp

lemma key_in_keys_of: "key a b \<in> keys_of p \<longleftrightarrow> (a, b) \<in> set p"
proof
  assume "key a b \<in> keys_of p"
  then obtain c where c: "c \<in> set p" and "key a b = key (fst c) (snd c)"
    by (auto simp: keys_of_def)
  then have "(a, b) = c" by (simp add: key_inject prod_eq_iff)
  with c show "(a, b) \<in> set p" by simp
next
  assume "(a, b) \<in> set p"
  then show "key a b \<in> keys_of p" unfolding keys_of_def by force
qed

lemma card_keys_of: "card (keys_of p) = card (set p)"
proof -
  have "inj_on (\<lambda>c. key (fst c) (snd c)) (set p)"
    by (rule inj_onI) (simp add: key_inject prod_eq_iff)
  then show ?thesis unfolding keys_of_def by (rule card_image)
qed

subsection \<open>The neighbour test and the invocations\<close>

lemma skip_no_error: "skip g visited nx ny \<noteq> Inl e"
  by (auto simp: skip_def row_at_def cell_at_def split: if_splits)

lemma skip_False_cell:
  assumes "skip g visited nx ny = Inr False"
  shows "cell g nx ny = Inr (g ! nat nx ! nat ny)"
  using assms by (auto simp: skip_def cell_def row_at_def cell_at_def split: if_splits)

lemma dfs_by_calls:
  "(\<forall>ws. dfs h g lx x y path currentWord visited ws
          = Inr (fold (apply_call h lx) (dfs_calls h g lx d x y path currentWord visited) ws))"
  "(\<forall>ws. dfs_loop h g lx x y path currentWord visited ds ws
          = Inr (fold (apply_call h lx) (dfs_loop_calls h g lx d x y path currentWord visited ds) ws))"
proof (induction h g lx d x y path currentWord visited and h g lx d x y path currentWord visited ds
       rule: dfs_calls_dfs_loop_calls.induct)
  case (1 h g lx d x y path currentWord visited)
  then show ?case by (simp add: apply_call_def records_def Let_def)
next
  case (2 h g lx d x y path currentWord visited)
  then show ?case by simp
next
  case (3 h g lx d x y path currentWord visited dx dy ds)
  show ?case
  proof (cases "skip g visited (x + dx) (y + dy)")
    case (Inl e)
    then show ?thesis using skip_no_error by blast
  next
    case (Inr b)
    show ?thesis
    proof (cases b)
      case True
      with Inr 3 show ?thesis by simp
    next
      case False
      with Inr have s: "skip g visited (x + dx) (y + dy) = Inr False" by simp
      note c = skip_False_cell[OF s]
      from 3(2)[OF s refl c] 3(3)[OF s refl c] s c show ?thesis by simp
    qed
  qed
qed

subsection \<open>The dictionary is closed under prefixes that end between code points\<close>

lemma cuts_pair_Cons: "0 < k \<Longrightarrow> cuts_pair (c # w) (Suc k) = cuts_pair w k"
  by (cases k) (auto simp: cuts_pair_def)

lemma boundary_prefixes_Nil: "boundary_prefixes pre [] = {}"
  by (simp add: boundary_prefixes_def)

lemma boundary_prefixes_Cons:
  "boundary_prefixes pre (c # w)
     = (if cuts_pair (c # w) 1 then {} else {pre @ [c]}) \<union> boundary_prefixes (pre @ [c]) w"
  (is "?L = ?F \<union> ?R")
proof
  show "?L \<subseteq> ?F \<union> ?R"
  proof
    fix s assume "s \<in> ?L"
    then obtain k where k: "1 \<le> k" "k \<le> length (c # w)" "\<not> cuts_pair (c # w) k"
      and s: "s = pre @ take k (c # w)"
      unfolding boundary_prefixes_def by blast
    from k(1) obtain k' where k': "k = Suc k'" by (cases k) auto
    show "s \<in> ?F \<union> ?R"
    proof (cases k')
      case 0
      with k k' s show ?thesis by simp
    next
      case (Suc m)
      with k k' have "1 \<le> k'" "k' \<le> length w" "\<not> cuts_pair w k'"
        by (simp_all add: cuts_pair_Cons)
      moreover from s k' have "s = (pre @ [c]) @ take k' w" by simp
      ultimately have "s \<in> ?R" unfolding boundary_prefixes_def by blast
      then show ?thesis by simp
    qed
  qed
  show "?F \<union> ?R \<subseteq> ?L"
  proof
    fix s assume "s \<in> ?F \<union> ?R"
    then consider "\<not> cuts_pair (c # w) 1" "s = pre @ [c]" | "s \<in> ?R"
      by (auto split: if_splits)
    then show "s \<in> ?L"
    proof cases
      case 1
      then have "s = pre @ take 1 (c # w)" by simp
      with 1 show ?thesis
        unfolding boundary_prefixes_def by (intro CollectI exI[of _ 1]) simp
    next
      case 2
      then obtain k where k: "1 \<le> k" "k \<le> length w" "\<not> cuts_pair w k"
        and s: "s = (pre @ [c]) @ take k w"
        unfolding boundary_prefixes_def by blast
      from k have "\<not> cuts_pair (c # w) (Suc k)" by (simp add: cuts_pair_Cons)
      moreover from s have "s = pre @ take (Suc k) (c # w)" by simp
      ultimately show ?thesis
        using k unfolding boundary_prefixes_def by (intro CollectI exI[of _ "Suc k"]) simp
    qed
  qed
qed

lemma not_high_and_low: "is_low d \<Longrightarrow> \<not> is_high d"
proof
  assume "is_low d" and "is_high d"
  then have "(0xDC00 :: code_unit) \<le> d" and "d \<le> 0xDBFF"
    by (simp_all add: is_high_def is_low_def)
  then have "(0xDC00 :: code_unit) \<le> 0xDBFF" by (rule order_trans)
  then show False by simp
qed

lemma add_prefixes_eq: "add_prefixes pre w ps = ps \<union> boundary_prefixes pre w"
proof (induction pre w ps rule: add_prefixes.induct)
  case (1 prefix ps)
  then show ?case by (simp add: boundary_prefixes_Nil)
next
  case (2 prefix c ps)
  have "\<not> cuts_pair [c] 1" by (simp add: cuts_pair_def)
  then show ?case by (simp add: boundary_prefixes_Cons boundary_prefixes_Nil)
next
  case (3 prefix c d cs ps)
  have one: "cuts_pair (c # d # cs) 1 = (is_high c \<and> is_low d)" by (simp add: cuts_pair_def)
  show ?case
  proof (cases "is_high c \<and> is_low d")
    case True
    then have "\<not> is_high d" by (simp add: not_high_and_low)
    then have two: "\<not> cuts_pair (d # cs) 1" by (simp add: cuts_pair_def)
    have "boundary_prefixes prefix (c # d # cs)
            = insert (prefix @ [c, d]) (boundary_prefixes (prefix @ [c, d]) cs)"
      using True one two
      by (simp add: boundary_prefixes_Cons[of prefix c] boundary_prefixes_Cons[of "prefix @ [c]" d])
    with True 3(1) show ?thesis by simp
  next
    case False
    with one have "boundary_prefixes prefix (c # d # cs)
            = insert (prefix @ [c]) (boundary_prefixes (prefix @ [c]) (d # cs))"
      by (simp add: boundary_prefixes_Cons[of prefix c])
    moreover have "add_prefixes prefix (c # d # cs) ps
            = add_prefixes (prefix @ [c]) (d # cs) (insert (prefix @ [c]) ps)"
      by (simp only: add_prefixes.simps False if_False)
    ultimately show ?thesis using 3(2)[OF False] by simp
  qed
qed

lemma add_word_boundary_closed:
  assumes "boundary_closed lx"
  shows "boundary_closed (add_word h line lx)"
  using assms
  by (auto simp: boundary_closed_def add_word_def Let_def add_prefixes_eq boundary_prefixes_def)

lemma fold_add_word_boundary_closed:
  "boundary_closed lx \<Longrightarrow> boundary_closed (fold (add_word h) ls lx)"
  by (induction ls arbitrary: lx) (simp_all add: add_word_boundary_closed)



lemma init_boundary_closed: "boundary_closed (init h content)"
  using fold_add_word_boundary_closed[of unloaded h "split_lines content"]
  by (simp add: init_def boundary_closed_def unloaded_def)


lemma no_cut_without_high:
  assumes "\<forall>c \<in> set w. \<not> is_high c"
  shows "\<not> cuts_pair w k"
proof
  assume c: "cuts_pair w k"
  then have "k - 1 < length w" "is_high (w ! (k - 1))" by (auto simp: cuts_pair_def)
  then have "w ! (k - 1) \<in> set w" "is_high (w ! (k - 1))" by simp_all
  with assms show False by blast
qed

lemma plain_prefix_closed:
  assumes "boundary_closed lx" and "\<forall>w \<in> dictionary lx. \<forall>c \<in> set w. \<not> is_high c"
  shows "prefix_closed lx"
  using assms no_cut_without_high unfolding boundary_closed_def prefix_closed_def by blast

lemma init_prefix_closed_plain:
  assumes "list_all (\<lambda>w. list_all (\<lambda>c. \<not> is_high c) w) ws"
    and "dictionary (init h content) = set ws"
  shows "prefix_closed (init h content)"
proof (rule plain_prefix_closed[OF init_boundary_closed])
  from assms show "\<forall>w \<in> dictionary (init h content). \<forall>c \<in> set w. \<not> is_high c"
    by (simp add: list_all_iff)
qed

subsection \<open>The arguments of the invocations\<close>

lemma chain_snoc: "chain (p @ [q]) = (chain p \<and> (p = [] \<or> adjacent (last p) q))"
  by (induction p rule: chain.induct) auto

lemma set_usable_cells: "set (usable_cells g) = {p. usable g p}"
proof -
  have m: "p \<in> set (usable_cells g) \<longleftrightarrow>
        (\<exists>i j. i < length g \<and> j < length (g ! i) \<and> trim [g ! i ! j] \<noteq> [] \<and> p = (int i, int j))"
    for p
    by (auto simp: usable_cells_def)
  have "p \<in> set (usable_cells g) \<longleftrightarrow> usable g p" for p
  proof
    assume "p \<in> set (usable_cells g)"
    with m show "usable g p" by (auto simp: usable_def)
  next
    assume u: "usable g p"
    then have "nat (fst p) < length g" "nat (snd p) < length (g ! nat (fst p))"
      "trim [g ! nat (fst p) ! nat (snd p)] \<noteq> []" "p = (int (nat (fst p)), int (nat (snd p)))"
      by (auto simp: usable_def prod_eq_iff)
    then have "\<exists>i j. i < length g \<and> j < length (g ! i) \<and> trim [g ! i ! j] \<noteq> [] \<and> p = (int i, int j)"
      by blast
    with m show "p \<in> set (usable_cells g)" by simp
  qed
  then show ?thesis by auto
qed

lemma simple_path_length:
  assumes "simple_path g p"
  shows "length p \<le> length (usable_cells g)"
proof -
  from assms have d: "distinct p" and s: "set p \<subseteq> set (usable_cells g)"
    by (auto simp: simple_path_def set_usable_cells list_all_iff)
  from d have "length p = card (set p)" by (simp add: distinct_card)
  also from s have "\<dots> \<le> card (set (usable_cells g))" by (simp add: card_mono)
  also have "\<dots> \<le> length (usable_cells g)" by (rule card_length)
  finally show ?thesis .
qed

lemma skip_False_usable:
  assumes "skip g visited nx ny = Inr False"
  shows "usable g (nx, ny)"
  using assms by (auto simp: skip_def usable_def row_at_def cell_at_def split: if_splits)

lemma usable_skip:
  assumes "usable g (nx, ny)" and "key nx ny \<notin> visited"
  shows "skip g visited nx ny = Inr False"
  using assms by (auto simp: skip_def usable_def row_at_def cell_at_def)

lemma node_ok_child:
  assumes ok: "node_ok g \<lparr>depth = d, at_x = x, at_y = y, the_path = path, the_word = w,
                         the_visited = visited\<rparr>"
    and dir: "(dx, dy) \<in> set directions"
    and s: "skip g visited (x + dx) (y + dy) = Inr False"
  shows "node_ok g \<lparr>depth = Suc d, at_x = x + dx, at_y = y + dy,
                    the_path = path @ [(x + dx, y + dy)],
                    the_word = w @ [g ! nat (x + dx) ! nat (y + dy)],
                    the_visited = insert (key (x + dx) (y + dy)) visited\<rparr>"
proof -
  from ok have v: "visited = keys_of path" by (simp add: node_ok_def)
  from skip_False_cells(2)[OF s] v have nv: "(x + dx, y + dy) \<notin> set path"
    by (simp add: key_in_keys_of)
  from skip_False_usable[OF s] have u: "usable g (x + dx, y + dy)" .
  from dir have "adjacent (x, y) (x + dx, y + dy)" by (simp add: adjacent_def)
  moreover have "insert (key (x + dx) (y + dy)) (keys_of path) = keys_of (path @ [(x + dx, y + dy)])"
    by (simp add: keys_of_def)
  ultimately show ?thesis using ok nv u
    by (simp add: node_ok_def simple_path_def chain_snoc spell_def)
qed

lemma calls_ok:
  "node_ok g \<lparr>depth = d, at_x = x, at_y = y, the_path = path, the_word = currentWord,
              the_visited = visited\<rparr>
   \<longrightarrow> (\<forall>c \<in> set (dfs_calls h g lx d x y path currentWord visited). node_ok g c)"
  "node_ok g \<lparr>depth = d, at_x = x, at_y = y, the_path = path, the_word = currentWord,
              the_visited = visited\<rparr> \<and> set ds \<subseteq> set directions
   \<longrightarrow> (\<forall>c \<in> set (dfs_loop_calls h g lx d x y path currentWord visited ds). node_ok g c)"
proof (induction h g lx d x y path currentWord visited and h g lx d x y path currentWord visited ds
       rule: dfs_calls_dfs_loop_calls.induct)
  case (1 h g lx d x y path currentWord visited)
  then show ?case by simp
next
  case (2 h g lx d x y path currentWord visited)
  then show ?case by simp
next
  case (3 h g lx d x y path currentWord visited dx dy ds)
  show ?case
  proof (intro impI, elim conjE)
    assume ok: "node_ok g \<lparr>depth = d, at_x = x, at_y = y, the_path = path,
                           the_word = currentWord, the_visited = visited\<rparr>"
      and sub: "set ((dx, dy) # ds) \<subseteq> set directions"
    then have sub': "set ds \<subseteq> set directions" and dir: "(dx, dy) \<in> set directions" by auto
    show "\<forall>c \<in> set (dfs_loop_calls h g lx d x y path currentWord visited ((dx, dy) # ds)). node_ok g c"
    proof (cases "skip g visited (x + dx) (y + dy)")
      case (Inl e)
      then show ?thesis by simp
    next
      case (Inr b)
      show ?thesis
      proof (cases b)
        case True
        with Inr 3(1) ok sub' show ?thesis by simp
      next
        case False
        with Inr have s: "skip g visited (x + dx) (y + dy) = Inr False" by simp
        note c = skip_False_cell[OF s]
        note child = node_ok_child[OF ok dir s]
        from 3(2)[OF s refl c] child 3(3)[OF s refl c] ok sub' s c show ?thesis by auto
      qed
    qed
  qed
qed

subsection \<open>\<open>findWords\<close> through its invocations of \<open>dfs\<close>\<close>

declare dfs.simps [simp del] dfs_calls.simps [simp del]

lemma dfs_eq_calls:
  "dfs h g lx x y path currentWord visited ws
     = Inr (fold (apply_call h lx) (dfs_calls h g lx d x y path currentWord visited) ws)"
  using dfs_by_calls(1) by blast

lemma start_row_eq_calls:
  "start_row h g lx i j cs ws = Inr (fold (apply_call h lx) (start_row_calls h g lx i j cs) ws)"
  by (induction cs arbitrary: j ws) (simp_all add: dfs_eq_calls[where d = 0])

lemma start_rows_eq_calls:
  "start_rows h g lx i rows ws = Inr (fold (apply_call h lx) (start_rows_calls h g lx i rows) ws)"
  by (induction rows arbitrary: i ws) (simp_all add: start_row_eq_calls)

lemma findWords_eq_calls:
  "findWords h lx g
     = Inr (array_sort (compare_entries (localeCompare h))
              (fold (apply_call h lx) (findWords_calls h g lx) []))"
  by (simp add: findWords_def findWords_calls_def start_rows_eq_calls)

lemma in_start_row_calls:
  "c \<in> set (start_row_calls h g lx i j0 cs) \<longleftrightarrow>
     (\<exists>k<length cs. trim [cs ! k] \<noteq> [] \<and>
        c \<in> set (dfs_calls h g lx 0 i (j0 + int k) [(i, j0 + int k)] [cs ! k] {key i (j0 + int k)}))"
proof (induction cs arbitrary: j0)
  case Nil
  then show ?case by simp
next
  case (Cons a cs)
  have shift: "j0 + 1 + int k = j0 + int (Suc k)" for k by simp
  show ?case
    unfolding start_row_calls.simps less_Suc_eq_0_disj length_Cons
    by (cases "trim [a] = []") (auto simp: Cons.IH shift simp del: of_nat_Suc)
qed

lemma in_start_rows_calls:
  "c \<in> set (start_rows_calls h g lx i0 rows) \<longleftrightarrow>
     (\<exists>r<length rows. c \<in> set (start_row_calls h g lx (i0 + int r) 0 (rows ! r)))"
proof (induction rows arbitrary: i0)
  case Nil
  then show ?case by simp
next
  case (Cons a rows)
  have shift: "i0 + 1 + int k = i0 + int (Suc k)" for k by simp
  show ?case
    unfolding start_rows_calls.simps less_Suc_eq_0_disj length_Cons
    by (auto simp: Cons.IH shift simp del: of_nat_Suc)
qed

lemma in_findWords_calls:
  "c \<in> set (findWords_calls h g lx) \<longleftrightarrow>
     (\<exists>i<length g. \<exists>j<length (g ! i). trim [g ! i ! j] \<noteq> [] \<and>
        c \<in> set (dfs_calls h g lx 0 (int i) (int j) [(int i, int j)] [g ! i ! j] {key (int i) (int j)}))"
  by (simp add: findWords_calls_def in_start_rows_calls in_start_row_calls)

lemma root_ok:
  assumes "i < length g" "j < length (g ! i)" "trim [g ! i ! j] \<noteq> []"
  shows "node_ok g \<lparr>depth = 0, at_x = int i, at_y = int j, the_path = [(int i, int j)],
                    the_word = [g ! i ! j], the_visited = {key (int i) (int j)}\<rparr>"
  using assms by (simp add: node_ok_def simple_path_def usable_def spell_def keys_of_def)

lemma findWords_calls_ok:
  assumes "c \<in> set (findWords_calls h g lx)"
  shows "node_ok g c"
proof -
  from assms obtain i j where ij: "i < length g" "j < length (g ! i)" "trim [g ! i ! j] \<noteq> []"
    and c: "c \<in> set (dfs_calls h g lx 0 (int i) (int j) [(int i, int j)] [g ! i ! j] {key (int i) (int j)})"
    unfolding in_findWords_calls by blast
  from calls_ok(1)[of g 0 "int i" "int j" "[(int i, int j)]" "[g ! i ! j]" "{key (int i) (int j)}" h lx]
    root_ok[OF ij] c
  show ?thesis by blast
qed

subsection \<open>The map\<close>

lemma map_of_words_set: "map_of (words_set k v ws) = (map_of ws)(k \<mapsto> v)"
  by (induction ws) (auto simp: fun_eq_iff)

lemma keys_words_set: "fst ` set (words_set k v ws) = insert k (fst ` set ws)"
  by (induction k v ws rule: words_set.induct) auto

lemma apply_call_records:
  "records h lx c \<Longrightarrow> apply_call h lx c ws = words_set (the_word c) (the_path c) ws"
  by (simp add: apply_call_def)

lemma apply_call_other: "\<not> records h lx c \<Longrightarrow> apply_call h lx c ws = ws"
  by (simp add: apply_call_def)

lemma distinct_words_set:
  "distinct (map fst ws) \<Longrightarrow> distinct (map fst (words_set k v ws))"
  by (induction ws) (auto simp: keys_words_set)

lemma distinct_fold_apply_call:
  "distinct (map fst ws) \<Longrightarrow> distinct (map fst (fold (apply_call h lx) cs ws))"
proof (induction cs arbitrary: ws)
  case Nil
  then show ?case by simp
next
  case (Cons c cs)
  then show ?case
    by (cases "records h lx c") (simp_all add: apply_call_records apply_call_other distinct_words_set)
qed

lemma map_of_fold_apply_call:
  "map_of (fold (apply_call h lx) cs ws)
     = map_of ws ++ map_of (rev (map (\<lambda>c. (the_word c, the_path c)) (filter (records h lx) cs)))"
proof (induction cs arbitrary: ws)
  case Nil
  then show ?case by simp
next
  case (Cons c cs)
  show ?case
  proof (cases "records h lx c")
    case True
    have "(map_of ws)(the_word c \<mapsto> the_path c) = map_of ws ++ [the_word c \<mapsto> the_path c]"
      by simp
    with True show ?thesis
      by (simp add: Cons.IH apply_call_records map_of_words_set map_add_assoc del: map_add_upd)
  next
    case False
    then show ?thesis by (simp add: Cons.IH apply_call_other)
  qed
qed

subsection \<open>The sort\<close>

lemma set_insert_sorted: "set (insert_sorted cmp a bs) = insert a (set bs)"
  by (induction bs) auto

lemma set_array_sort: "set (array_sort cmp xs) = set xs"
  by (induction xs) (simp_all add: array_sort_def set_insert_sorted)

lemma distinct_keys_insert_sorted:
  "distinct (map fst (insert_sorted cmp a bs)) \<longleftrightarrow> fst a \<notin> fst ` set bs \<and> distinct (map fst bs)"
  by (induction bs) (auto simp: set_insert_sorted)

lemma distinct_keys_array_sort:
  "distinct (map fst (array_sort cmp xs)) \<longleftrightarrow> distinct (map fst xs)"
  by (induction xs) (simp_all add: array_sort_def distinct_keys_insert_sorted set_array_sort[unfolded array_sort_def])

lemma map_of_array_sort:
  assumes "distinct (map fst xs)"
  shows "map_of (array_sort cmp xs) = map_of xs"
  using assms map_of_inject_set[of "array_sort cmp xs" xs]
  by (simp add: distinct_keys_array_sort set_array_sort)

lemma sorted_insert_sorted:
  assumes "consistent cmp" and "sorted_wrt (\<lambda>a b. cmp a b \<le> 0) bs"
  shows "sorted_wrt (\<lambda>a b. cmp a b \<le> 0) (insert_sorted cmp a bs)"
  using assms(2)
proof (induction bs)
  case Nil
  then show ?case by simp
next
  case (Cons b bs)
  from assms(1) have tot: "\<And>u v. cmp u v \<le> 0 \<or> cmp v u \<le> 0"
    and tr: "\<And>u v w. cmp u v \<le> 0 \<Longrightarrow> cmp v w \<le> 0 \<Longrightarrow> cmp u w \<le> 0"
    unfolding consistent_def by blast+
  show ?case
  proof (cases "cmp a b \<le> 0")
    case True
    with Cons.prems tr show ?thesis by auto
  next
    case False
    with tot[of a b] have "cmp b a \<le> 0" by simp
    with False Cons show ?thesis by (auto simp: set_insert_sorted)
  qed
qed

lemma sorted_array_sort:
  assumes "consistent cmp"
  shows "sorted_wrt (\<lambda>a b. cmp a b \<le> 0) (array_sort cmp xs)"
  by (induction xs) (simp_all add: array_sort_def sorted_insert_sorted[OF assms])

lemma consistent_compare_entries:
  assumes "consistent compare"
  shows "consistent (compare_entries compare)"
proof -
  from assms have tot: "\<And>u v. compare u v \<le> 0 \<or> compare v u \<le> 0"
    and tr: "\<And>u v w. compare u v \<le> 0 \<Longrightarrow> compare v w \<le> 0 \<Longrightarrow> compare u w \<le> 0"
    unfolding consistent_def by blast+
  show ?thesis
    unfolding consistent_def compare_entries_def
  proof (intro conjI allI impI)
    fix a b :: "jstring \<times> path"
    show "(if int (length (fst a)) - int (length (fst b)) \<noteq> 0
           then int (length (fst a)) - int (length (fst b)) else compare (fst a) (fst b)) \<le> 0
        \<or> (if int (length (fst b)) - int (length (fst a)) \<noteq> 0
           then int (length (fst b)) - int (length (fst a)) else compare (fst b) (fst a)) \<le> 0"
      using tot[of "fst a" "fst b"] by auto
  next
    fix a b c :: "jstring \<times> path"
    assume "(if int (length (fst a)) - int (length (fst b)) \<noteq> 0
           then int (length (fst a)) - int (length (fst b)) else compare (fst a) (fst b)) \<le> 0
        \<and> (if int (length (fst b)) - int (length (fst c)) \<noteq> 0
           then int (length (fst b)) - int (length (fst c)) else compare (fst b) (fst c)) \<le> 0"
    then show "(if int (length (fst a)) - int (length (fst c)) \<noteq> 0
           then int (length (fst a)) - int (length (fst c)) else compare (fst a) (fst c)) \<le> 0"
      using tr[of "fst a" "fst b" "fst c"] by (auto split: if_splits)
  qed
qed

subsection \<open>Every simple path whose prefixes are in the prefix set is searched\<close>

lemma chain_append:
  "chain (p @ r) = (chain p \<and> chain r \<and> (p = [] \<or> r = [] \<or> adjacent (last p) (hd r)))"
proof (induction p rule: chain.induct)
  case 1
  then show ?case by simp
next
  case (2 a)
  then show ?case by (cases r) auto
next
  case (3 a b ps)
  then show ?case by auto
qed

lemma loop_member:
  assumes "(dx, dy) \<in> set ds" and s: "skip g visited (x + dx) (y + dy) = Inr False"
  shows "set (dfs_calls h g lx (Suc d) (x + dx) (y + dy) (path @ [(x + dx, y + dy)])
                (w @ [g ! nat (x + dx) ! nat (y + dy)]) (insert (key (x + dx) (y + dy)) visited))
         \<subseteq> set (dfs_loop_calls h g lx d x y path w visited ds)"
  using assms(1)
proof (induction ds)
  case Nil
  then show ?case by simp
next
  case (Cons a ds)
  obtain ax ay where a: "a = (ax, ay)" by (cases a)
  show ?case
  proof (cases "(dx, dy) = a")
    case True
    with a s skip_False_cell[OF s] show ?thesis by auto
  next
    case False
    with Cons have ih: "set (dfs_calls h g lx (Suc d) (x + dx) (y + dy) (path @ [(x + dx, y + dy)])
                (w @ [g ! nat (x + dx) ! nat (y + dy)]) (insert (key (x + dx) (y + dy)) visited))
         \<subseteq> set (dfs_loop_calls h g lx d x y path w visited ds)" by simp
    show ?thesis
    proof (cases "skip g visited (x + ax) (y + ay)")
      case (Inl e)
      then show ?thesis using skip_no_error by blast
    next
      case (Inr b)
      show ?thesis
      proof (cases b)
        case True
        with Inr ih a show ?thesis by simp
      next
        case False
        with Inr have s': "skip g visited (x + ax) (y + ay) = Inr False" by simp
        from ih a s' skip_False_cell[OF s'] show ?thesis by auto
      qed
    qed
  qed
qed

lemma reach:
  assumes "simple_path g (path @ ext)"
    and "path \<noteq> []" and "last path = (x, y)" and "visited = keys_of path" and "w = spell g path"
    and "\<forall>k. length path \<le> k \<and> k < length (path @ ext)
            \<longrightarrow> toLowerCase h (spell g (take k (path @ ext))) \<in> prefixDictionary lx"
  shows "\<exists>c \<in> set (dfs_calls h g lx d x y path w visited).
            the_path c = path @ ext \<and> the_word c = spell g (path @ ext)"
  using assms
proof (induction ext arbitrary: d x y path w visited)
  case Nil
  then show ?case by (simp add: dfs_calls.simps)
next
  case (Cons e ext)
  obtain ex ey where e: "e = (ex, ey)" by (cases e)
  from Cons.prems(6) have "toLowerCase h (spell g (take (length path) (path @ e # ext))) \<in> prefixDictionary lx"
    by (intro Cons.prems(6)[rule_format]) simp
  then have pre: "toLowerCase h w \<in> prefixDictionary lx" using Cons.prems(5) by simp
  from Cons.prems(1) have ch: "chain (path @ e # ext)" and di: "distinct (path @ e # ext)"
    and us: "usable g e"
    by (auto simp: simple_path_def)
  from ch Cons.prems(2,3) have "adjacent (x, y) e" by (simp add: chain_append)
  then have dir: "(ex - x, ey - y) \<in> set directions" by (simp add: adjacent_def e)
  from di Cons.prems(4) have nv: "key (x + (ex - x)) (y + (ey - y)) \<notin> visited"
    by (simp add: e key_in_keys_of)
  from us have us': "usable g (x + (ex - x), y + (ey - y))" by (simp add: e)
  note s = usable_skip[OF us' nv]
  from loop_member[OF dir s, of h lx d path w]
  have sub: "set (dfs_calls h g lx (Suc d) ex ey (path @ [e]) (w @ [g ! nat ex ! nat ey]) (insert (key ex ey) visited))
         \<subseteq> set (dfs_loop_calls h g lx d x y path w visited directions)" by (simp add: e)
  have "\<exists>c \<in> set (dfs_calls h g lx (Suc d) ex ey (path @ [e]) (w @ [g ! nat ex ! nat ey]) (insert (key ex ey) visited)).
            the_path c = (path @ [e]) @ ext \<and> the_word c = spell g ((path @ [e]) @ ext)"
  proof (rule Cons.IH)
    show "simple_path g ((path @ [e]) @ ext)" using Cons.prems(1) by simp
    show "path @ [e] \<noteq> []" by simp
    show "last (path @ [e]) = (ex, ey)" by (simp add: e)
    show "insert (key ex ey) visited = keys_of (path @ [e])"
      using Cons.prems(4) by (simp add: keys_of_def e)
    show "w @ [g ! nat ex ! nat ey] = spell g (path @ [e])"
      using Cons.prems(5) by (simp add: spell_def e)
    show "\<forall>k. length (path @ [e]) \<le> k \<and> k < length ((path @ [e]) @ ext)
            \<longrightarrow> toLowerCase h (spell g (take k ((path @ [e]) @ ext))) \<in> prefixDictionary lx"
      using Cons.prems(6) by simp
  qed
  then obtain c
    where c: "c \<in> set (dfs_calls h g lx (Suc d) ex ey (path @ [e]) (w @ [g ! nat ex ! nat ey]) (insert (key ex ey) visited))"
      and cp: "the_path c = path @ e # ext" and cw: "the_word c = spell g (path @ e # ext)"
    by auto
  have "set (dfs_loop_calls h g lx d x y path w visited directions)
          \<subseteq> set (dfs_calls h g lx d x y path w visited)"
    using pre by (subst dfs_calls.simps) auto
  with sub c have "c \<in> set (dfs_calls h g lx d x y path w visited)" by blast
  with cp cw show ?case by blast
qed

lemma found_path:
  assumes sp: "simple_path g p"
    and pre: "\<forall>k. 1 \<le> k \<and> k \<le> length p
                \<longrightarrow> toLowerCase h (spell g (take k p)) \<in> prefixDictionary lx"
    and dw: "toLowerCase h (spell g p) \<in> dictionary lx"
  shows "\<exists>c \<in> set (findWords_calls h g lx).
            records h lx c \<and> the_word c = spell g p \<and> the_path c = p"
proof -
  from sp obtain s ext where p: "p = s # ext" by (cases p) (auto simp: simple_path_def)
  from sp p have us: "usable g s" by (simp add: simple_path_def)
  define i j where "i = nat (fst s)" and "j = nat (snd s)"
  from us have ij: "i < length g" "j < length (g ! i)" "trim [g ! i ! j] \<noteq> []"
    and s: "s = (int i, int j)"
    by (auto simp: usable_def i_def j_def prod_eq_iff)
  have "\<exists>c \<in> set (dfs_calls h g lx 0 (int i) (int j) [s] [g ! i ! j] {key (int i) (int j)}).
            the_path c = [s] @ ext \<and> the_word c = spell g ([s] @ ext)"
  proof (rule reach)
    show "simple_path g ([s] @ ext)" using sp p by simp
    show "[s] \<noteq> []" by simp
    show "last [s] = (int i, int j)" by (simp add: s)
    show "{key (int i) (int j)} = keys_of [s]" by (simp add: keys_of_def s)
    show "[g ! i ! j] = spell g [s]" by (simp add: spell_def s)
    show "\<forall>k. length [s] \<le> k \<and> k < length ([s] @ ext)
            \<longrightarrow> toLowerCase h (spell g (take k ([s] @ ext))) \<in> prefixDictionary lx"
      using pre p by simp
  qed
  then obtain c
    where c: "c \<in> set (dfs_calls h g lx 0 (int i) (int j) [s] [g ! i ! j] {key (int i) (int j)})"
    and cp: "the_path c = p" and cw: "the_word c = spell g p"
    using p by auto
  from c ij s have "c \<in> set (findWords_calls h g lx)" unfolding in_findWords_calls by blast
  moreover from sp have "1 \<le> length p" by (cases p) (auto simp: simple_path_def)
  with pre have "toLowerCase h (spell g (take (length p) p)) \<in> prefixDictionary lx" by blast
  with dw cw have "records h lx c" by (simp add: records_def)
  ultimately show ?thesis using cp cw by blast
qed

lemma segments_in_prefixes:
  assumes "prefix_closed lx" and "toLowerCase h (spell g p) \<in> dictionary lx"
    and "\<forall>k. 1 \<le> k \<and> k \<le> length p
           \<longrightarrow> toLowerCase h (spell g (take k p)) = take k (toLowerCase h (spell g p))"
    and "length (toLowerCase h (spell g p)) = length p"
  shows "\<forall>k. 1 \<le> k \<and> k \<le> length p
           \<longrightarrow> toLowerCase h (spell g (take k p)) \<in> prefixDictionary lx"
  using assms unfolding prefix_closed_def by auto

subsection \<open>The result of \<open>findWords\<close>\<close>

lemma findWords_map_of:
  "\<exists>r. findWords h lx g = Inr r \<and> distinct (map fst r)
       \<and> map_of r = map_of (rev (discoveries h g lx))"
proof -
  let ?ws = "fold (apply_call h lx) (findWords_calls h g lx) []"
  have d: "distinct (map fst ?ws)" by (rule distinct_fold_apply_call) simp
  have "map_of (array_sort (compare_entries (localeCompare h)) ?ws)
          = map_of (rev (discoveries h g lx))"
    by (simp add: map_of_array_sort[OF d] map_of_fold_apply_call discoveries_def)
  with d show ?thesis by (simp add: findWords_eq_calls distinct_keys_array_sort)
qed

lemma findWords_entry:
  assumes "findWords h lx g = Inr r" and "(w, p) \<in> set r"
  shows "\<exists>c \<in> set (findWords_calls h g lx). records h lx c \<and> the_word c = w \<and> the_path c = p"
proof -
  from findWords_map_of[of h lx g] assms(1)
  have d: "distinct (map fst r)" and m: "map_of r = map_of (rev (discoveries h g lx))" by auto
  from d assms(2) have "map_of r w = Some p" by simp
  with m have "(w, p) \<in> set (rev (discoveries h g lx))" by (auto dest: map_of_SomeD)
  then show ?thesis by (auto simp: discoveries_def)
qed

lemma findWords_key:
  assumes "findWords h lx g = Inr r"
    and "c \<in> set (findWords_calls h g lx)" and "records h lx c"
  shows "the_word c \<in> fst ` set r"
proof -
  from findWords_map_of[of h lx g] assms(1)
  have m: "map_of r = map_of (rev (discoveries h g lx))" by auto
  from assms(2,3) have "the_word c \<in> fst ` set (rev (discoveries h g lx))"
    by (force simp: discoveries_def)
  then have "the_word c \<in> dom (map_of (rev (discoveries h g lx)))"
    by (simp only: dom_map_of_conv_image_fst)
  with m show ?thesis by (simp only: dom_map_of_conv_image_fst[symmetric])
qed

lemma once_of_distinct:
  assumes "distinct (map fst r)" and "k \<in> fst ` set r"
  shows "length (filter (\<lambda>e. fst e = k) r) = 1"
  using assms
proof (induction r)
  case Nil
  then show ?case by simp
next
  case (Cons a r)
  show ?case
  proof (cases "fst a = k")
    case True
    with Cons.prems have "k \<notin> fst ` set r" by simp
    then have "\<forall>e \<in> set r. fst e \<noteq> k" by (auto simp: image_iff)
    then have "filter (\<lambda>e. fst e = k) r = []" by (simp add: filter_empty_conv)
    with True show ?thesis by simp
  next
    case False
    with Cons show ?thesis by auto
  qed
qed

subsection \<open>The comparators\<close>

lemma ordinal_compare_zero: "ordinal_compare a b = 0 \<longleftrightarrow> a = b"
  by (induction a b rule: ordinal_compare.induct) auto

lemma ordinal_compare_flip: "ordinal_compare b a = - ordinal_compare a b"
  by (induction a b rule: ordinal_compare.induct) auto

lemma ordinal_compare_trans:
  "ordinal_compare a b \<le> 0 \<Longrightarrow> ordinal_compare b c \<le> 0 \<Longrightarrow> ordinal_compare a c \<le> 0"
proof (induction a arbitrary: b c)
  case Nil
  then show ?case by (cases c) auto
next
  case (Cons x xs)
  from Cons.prems(1) obtain y ys where b: "b = y # ys" by (cases b) auto
  from Cons.prems(2) b obtain z zs where c: "c = z # zs" by (cases c) auto
  from Cons.prems b c have xy: "x \<le> y" and yz: "y \<le> z"
    by (auto split: if_splits)
  show ?case
  proof (cases "x < z")
    case True
    then show ?thesis by (simp add: c)
  next
    case False
    with xy yz have e: "x = y" "y = z" by auto
    with Cons.prems b c have "ordinal_compare xs ys \<le> 0" "ordinal_compare ys zs \<le> 0" by auto
    then have "ordinal_compare xs zs \<le> 0" by (rule Cons.IH)
    with e show ?thesis by (simp add: c)
  qed
qed

lemma ordinal_compare_strict_trans:
  assumes "ordinal_compare a b < 0" and "ordinal_compare b c \<le> 0"
  shows "ordinal_compare a c < 0"
proof -
  from assms have le: "ordinal_compare a c \<le> 0" using ordinal_compare_trans[of a b c] by simp
  have "ordinal_compare a c \<noteq> 0"
  proof
    assume "ordinal_compare a c = 0"
    then have "a = c" by (simp add: ordinal_compare_zero)
    with assms(2) have "ordinal_compare b a \<le> 0" by simp
    with assms(1) show False using ordinal_compare_flip[of b a] by simp
  qed
  with le show ?thesis by simp
qed

lemma consistent_ordinal_compare: "consistent ordinal_compare"
  unfolding consistent_def
proof (intro conjI allI impI)
  fix a b :: jstring
  show "ordinal_compare a b \<le> 0 \<or> ordinal_compare b a \<le> 0"
    using ordinal_compare_flip[of b a] by linarith
next
  fix a b c :: jstring
  assume "ordinal_compare a b \<le> 0 \<and> ordinal_compare b c \<le> 0"
  then show "ordinal_compare a c \<le> 0" using ordinal_compare_trans by blast
qed

lemma alphabetical_compare_le:
  "alphabetical_compare a b \<le> 0 \<longleftrightarrow>
     ordinal_compare (map lower_unit a) (map lower_unit b) < 0
     \<or> (map lower_unit a = map lower_unit b \<and> ordinal_compare b a \<le> 0)"
  using ordinal_compare_zero[of "map lower_unit a" "map lower_unit b"]
  by (auto simp: alphabetical_compare_def)

lemma consistent_alphabetical_compare: "consistent alphabetical_compare"
  unfolding consistent_def
proof (intro conjI allI impI)
  fix a b :: jstring
  show "alphabetical_compare a b \<le> 0 \<or> alphabetical_compare b a \<le> 0"
    unfolding alphabetical_compare_le
    using ordinal_compare_flip[of "map lower_unit b" "map lower_unit a"]
      ordinal_compare_flip[of b a]
      ordinal_compare_zero[of "map lower_unit a" "map lower_unit b"]
    by (cases "ordinal_compare (map lower_unit a) (map lower_unit b) = 0") auto
next
  fix a b c :: jstring
  assume "alphabetical_compare a b \<le> 0 \<and> alphabetical_compare b c \<le> 0"
  then have ab: "ordinal_compare (map lower_unit a) (map lower_unit b) < 0
       \<or> (map lower_unit a = map lower_unit b \<and> ordinal_compare b a \<le> 0)"
    and bc: "ordinal_compare (map lower_unit b) (map lower_unit c) < 0
       \<or> (map lower_unit b = map lower_unit c \<and> ordinal_compare c b \<le> 0)"
    unfolding alphabetical_compare_le by blast+
  from ab show "alphabetical_compare a c \<le> 0"
  proof
    assume l: "ordinal_compare (map lower_unit a) (map lower_unit b) < 0"
    from bc have "ordinal_compare (map lower_unit b) (map lower_unit c) \<le> 0"
      by (auto simp: ordinal_compare_zero[THEN iffD2])
    with l have "ordinal_compare (map lower_unit a) (map lower_unit c) < 0"
      by (rule ordinal_compare_strict_trans)
    then show ?thesis unfolding alphabetical_compare_le by simp
  next
    assume e: "map lower_unit a = map lower_unit b \<and> ordinal_compare b a \<le> 0"
    from bc show ?thesis
    proof
      assume "ordinal_compare (map lower_unit b) (map lower_unit c) < 0"
      with e show ?thesis unfolding alphabetical_compare_le by simp
    next
      assume "map lower_unit b = map lower_unit c \<and> ordinal_compare c b \<le> 0"
      with e ordinal_compare_trans[of c b a] show ?thesis
        unfolding alphabetical_compare_le by simp
    qed
  qed
qed

lemma consistent_alphabetical_host: "consistent (localeCompare alphabetical_host)"
  by (simp add: alphabetical_host_def consistent_alphabetical_compare)

section \<open>The properties\<close>

subsection \<open>Which path is kept for a word\<close>

text \<open>
  Claim C1, as the code has it. \<open>words.set\<close> replaces the path of a word that is already
  in the map, so the result holds, for every word found, the path discovered last: if
  the discoveries are \<open>before\<close>, then \<open>(w, p)\<close>, then \<open>after\<close>, and \<open>w\<close> is not discovered
  again in \<open>after\<close>, the result has the entry \<open>(w, p)\<close> and no other entry for \<open>w\<close>.
\<close>

theorem last_path_kept:
  assumes "discoveries h g lx = before @ (w, p) # after" and "w \<notin> fst ` set after"
  shows "\<exists>r. findWords h lx g = Inr r \<and> (w, p) \<in> set r
             \<and> (\<forall>q. (w, q) \<in> set r \<longrightarrow> q = p)"
proof -
  from findWords_map_of[of h lx g] obtain r
    where r: "findWords h lx g = Inr r" and d: "distinct (map fst r)"
      and m: "map_of r = map_of (rev (discoveries h g lx))" by blast
  from assms(2) have "map_of (rev after) w = None"
    by (simp add: map_of_eq_None_iff)
  with assms(1) have "map_of (rev (discoveries h g lx)) w = Some p"
    by (simp add: map_add_Some_iff)
  with m have mp: "map_of r w = Some p" by simp
  then have "(w, p) \<in> set r" by (rule map_of_SomeD)
  moreover have "\<forall>q. (w, q) \<in> set r \<longrightarrow> q = p"
    using map_of_is_SomeI[OF d] mp by fastforce
  ultimately show ?thesis using r by blast
qed

theorem last_path_kept_witness:
  "discoveries ordinal_host [utf16 ''TAT''] (init ordinal_host (utf16 ''at''))
     = [(utf16 ''AT'', [(0, 1), (0, 0)])] @ (utf16 ''AT'', [(0, 1), (0, 2)]) # []
   \<and> utf16 ''AT'' \<notin> fst ` set ([] :: (jstring \<times> path) list)
   \<and> findWords ordinal_host (init ordinal_host (utf16 ''at'')) [utf16 ''TAT'']
       = Inr [(utf16 ''AT'', [(0, 1), (0, 2)])]
   \<and> (\<exists>r. findWords ordinal_host (init ordinal_host (utf16 ''at'')) [utf16 ''TAT''] = Inr r
          \<and> (utf16 ''AT'', [(0, 1), (0, 2)]) \<in> set r
          \<and> (\<forall>q. (utf16 ''AT'', q) \<in> set r \<longrightarrow> q = [(0, 1), (0, 2)]))"
proof -
  have a: "discoveries ordinal_host [utf16 ''TAT''] (init ordinal_host (utf16 ''at''))
     = [(utf16 ''AT'', [(0, 1), (0, 0)])] @ (utf16 ''AT'', [(0, 1), (0, 2)]) # []"
    by code_simp
  have b: "utf16 ''AT'' \<notin> fst ` set ([] :: (jstring \<times> path) list)" by simp
  have c: "findWords ordinal_host (init ordinal_host (utf16 ''at'')) [utf16 ''TAT'']
       = Inr [(utf16 ''AT'', [(0, 1), (0, 2)])]"
    by code_simp
  from last_path_kept[OF a b] a b c show ?thesis by blast
qed

text \<open>
  The claim as the specification words it, that the first path discovered is kept and
  never overwritten, fails: in the grid \<open>T A T\<close> the word \<open>AT\<close> is discovered first to the
  left of \<open>A\<close> and then to its right, and the result holds the second path.
\<close>

theorem first_path_overwritten:
  "discoveries ordinal_host [utf16 ''TAT''] (init ordinal_host (utf16 ''at''))
     = [(utf16 ''AT'', [(0, 1), (0, 0)]), (utf16 ''AT'', [(0, 1), (0, 2)])]
   \<and> simple_path [utf16 ''TAT''] [(0, 1), (0, 0)]
   \<and> simple_path [utf16 ''TAT''] [(0, 1), (0, 2)]
   \<and> findWords ordinal_host (init ordinal_host (utf16 ''at'')) [utf16 ''TAT'']
       = Inr [(utf16 ''AT'', [(0, 1), (0, 2)])]"
proof -
  have a: "discoveries ordinal_host [utf16 ''TAT''] (init ordinal_host (utf16 ''at''))
      = [(utf16 ''AT'', [(0, 1), (0, 0)]), (utf16 ''AT'', [(0, 1), (0, 2)])]"
    by code_simp
  have b: "simple_path [utf16 ''TAT''] [(0, 1), (0, 0)]" by code_simp
  have c: "simple_path [utf16 ''TAT''] [(0, 1), (0, 2)]" by code_simp
  have d: "findWords ordinal_host (init ordinal_host (utf16 ''at'')) [utf16 ''TAT'']
       = Inr [(utf16 ''AT'', [(0, 1), (0, 2)])]"
    by code_simp
  from a b c d show ?thesis by blast
qed

subsection \<open>The order of the result\<close>

text \<open>
  Claim C2, as the code has it. The result is sorted by ascending word length, and words
  of equal length stand in the order of \<open>localeCompare\<close>, the host's collation, whatever
  that is as long as it is a consistent comparator; it is the order of the code units
  only on a host whose \<open>localeCompare\<close> is that order.
\<close>

theorem findWords_sorted:
  assumes "consistent (localeCompare h)" and "findWords h lx g = Inr r"
    and "i < j" and "j < length r"
  shows "length (fst (r ! i)) \<le> length (fst (r ! j))
       \<and> (length (fst (r ! i)) = length (fst (r ! j))
            \<longrightarrow> localeCompare h (fst (r ! i)) (fst (r ! j)) \<le> 0)"
proof -
  from assms(2) have "r = array_sort (compare_entries (localeCompare h))
                          (fold (apply_call h lx) (findWords_calls h g lx) [])"
    by (simp add: findWords_eq_calls)
  with sorted_array_sort[OF consistent_compare_entries[OF assms(1)]]
  have "sorted_wrt (\<lambda>a b. compare_entries (localeCompare h) a b \<le> 0) r" by simp
  with assms(3,4) have "compare_entries (localeCompare h) (r ! i) (r ! j) \<le> 0"
    by (simp add: sorted_wrt_iff_nth_less)
  then show ?thesis by (auto simp: compare_entries_def split: if_splits)
qed

theorem findWords_sorted_witness:
  "consistent (localeCompare alphabetical_host)
   \<and> findWords alphabetical_host (init alphabetical_host (utf16 ''a'' @ [0x0A] @ utf16 ''b''))
        [utf16 ''aB'']
       = Inr [(utf16 ''a'', [(0, 0)]), (utf16 ''B'', [(0, 1)])]
   \<and> length (utf16 ''a'') \<le> length (utf16 ''B'')
   \<and> length (utf16 ''a'') = length (utf16 ''B'')
   \<and> localeCompare alphabetical_host (utf16 ''a'') (utf16 ''B'') \<le> 0"
proof -
  have r: "findWords alphabetical_host (init alphabetical_host (utf16 ''a'' @ [0x0A] @ utf16 ''b''))
        [utf16 ''aB'']
       = Inr [(utf16 ''a'', [(0, 0)]), (utf16 ''B'', [(0, 1)])]"
    by code_simp
  have l: "length (utf16 ''a'') = length (utf16 ''B'')" by (simp add: utf16_def)
  from findWords_sorted[OF consistent_alphabetical_host r, of 0 1] l
  have "localeCompare alphabetical_host (utf16 ''a'') (utf16 ''B'') \<le> 0" by simp
  with r l consistent_alphabetical_host show ?thesis by simp
qed

text \<open>
  The claim as the specification words it, with the order of the code units, fails for
  the alphabetical collation: \<open>a\<close> is put before \<open>B\<close>, whose code unit is the smaller one.
\<close>

theorem findWords_not_ordinal:
  "consistent (localeCompare alphabetical_host)
   \<and> findWords alphabetical_host (init alphabetical_host (utf16 ''a'' @ [0x0A] @ utf16 ''b''))
        [utf16 ''aB'']
       = Inr [(utf16 ''a'', [(0, 0)]), (utf16 ''B'', [(0, 1)])]
   \<and> length (utf16 ''a'') = length (utf16 ''B'')
   \<and> 0 < ordinal_compare (utf16 ''a'') (utf16 ''B'')"
proof -
  have r: "findWords alphabetical_host (init alphabetical_host (utf16 ''a'' @ [0x0A] @ utf16 ''b''))
        [utf16 ''aB'']
       = Inr [(utf16 ''a'', [(0, 0)]), (utf16 ''B'', [(0, 1)])]"
    by code_simp
  have l: "length (utf16 ''a'') = length (utf16 ''B'')" by (simp add: utf16_def)
  have o: "0 < ordinal_compare (utf16 ''a'') (utf16 ''B'')" by code_simp
  from r l o consistent_alphabetical_host show ?thesis by blast
qed

subsection \<open>Soundness\<close>

text \<open>
  Claim C3. Every entry \<open>(w, p)\<close> of the result is a path that spells its word: the letters
  of the grid along \<open>p\<close> are \<open>w\<close> (so they are equal without regard to case as well), no
  cell occurs twice in \<open>p\<close>, every cell of \<open>p\<close> is inside the grid and not blank, and each
  cell of \<open>p\<close> is the one before it moved by one of the 8 offsets.
\<close>

theorem findWords_sound:
  assumes "findWords h lx g = Inr r" and "(w, p) \<in> set r"
  shows "spell g p = w \<and> toLowerCase h (spell g p) = toLowerCase h w \<and> p \<noteq> [] \<and> distinct p
       \<and> list_all (usable g) p \<and> chain p"
proof -
  from findWords_entry[OF assms] obtain c
    where c: "c \<in> set (findWords_calls h g lx)" and w: "the_word c = w" and p: "the_path c = p"
    by blast
  from findWords_calls_ok[OF c] w p show ?thesis
    by (auto simp: node_ok_def simple_path_def)
qed

theorem findWords_sound_witness:
  "findWords ordinal_host
      (init ordinal_host
         (utf16 ''cat'' @ [0x0A] @ utf16 ''cats'' @ [0x0A] @ utf16 ''at'' @ [0x0A] @ utf16 ''as''))
      [utf16 ''CA'', utf16 ''TS'']
     = Inr [(utf16 ''AS'', [(0, 1), (1, 1)]), (utf16 ''AT'', [(0, 1), (1, 0)]),
            (utf16 ''CAT'', [(0, 0), (0, 1), (1, 0)]),
            (utf16 ''CATS'', [(0, 0), (0, 1), (1, 0), (1, 1)])]
   \<and> spell [utf16 ''CA'', utf16 ''TS''] [(0, 0), (0, 1), (1, 0)] = utf16 ''CAT''
   \<and> distinct [(0, 0), (0, 1), (1, 0 :: int) :: coord]
   \<and> list_all (usable [utf16 ''CA'', utf16 ''TS'']) [(0, 0), (0, 1), (1, 0)]
   \<and> chain [(0, 0), (0, 1), (1, 0)]"
proof -
  have r: "findWords ordinal_host
      (init ordinal_host
         (utf16 ''cat'' @ [0x0A] @ utf16 ''cats'' @ [0x0A] @ utf16 ''at'' @ [0x0A] @ utf16 ''as''))
      [utf16 ''CA'', utf16 ''TS'']
     = Inr [(utf16 ''AS'', [(0, 1), (1, 1)]), (utf16 ''AT'', [(0, 1), (1, 0)]),
            (utf16 ''CAT'', [(0, 0), (0, 1), (1, 0)]),
            (utf16 ''CATS'', [(0, 0), (0, 1), (1, 0), (1, 1)])]"
    by code_simp
  have m: "(utf16 ''CAT'', [(0, 0), (0, 1), (1, 0)])
      \<in> set [(utf16 ''AS'', [(0, 1), (1, 1)]), (utf16 ''AT'', [(0, 1), (1, 0)]),
             (utf16 ''CAT'', [(0, 0), (0, 1), (1, 0)]),
             (utf16 ''CATS'', [(0, 0), (0, 1), (1, 0), (1, 1 :: int)])]"
    by simp
  from findWords_sound[OF r m] r show ?thesis by blast
qed

subsection \<open>Completeness\<close>

text \<open>
  Claim C4, as the code has it. The keys of the result are the spellings in the case of
  the grid, and a path is searched only as long as the lowercased letters of each of its
  initial segments are in the prefix set. For every simple adjacent path through usable
  cells such that the lowercased letters of every non-empty initial segment of the path
  are in the prefix set and the lowercased letters of the whole path are a dictionary
  word, the spelling of the path is a key of the result, exactly once. (Prefix closure
  puts the initial segments of the lowercased word into the prefix set; these are the
  lowercased initial segments where \<open>toLowerCase\<close> works letter by letter, as on the
  letters \<open>A\<close> to \<open>Z\<close>: lemma \<open>segments_in_prefixes\<close>.)
\<close>

theorem findWords_complete:
  assumes "simple_path g p"
    and "\<forall>k. 1 \<le> k \<and> k \<le> length p
           \<longrightarrow> toLowerCase h (spell g (take k p)) \<in> prefixDictionary lx"
    and "toLowerCase h (spell g p) \<in> dictionary lx"
  shows "\<exists>r. findWords h lx g = Inr r
             \<and> length (filter (\<lambda>e. fst e = spell g p) r) = 1"
proof -
  from findWords_map_of[of h lx g] obtain r
    where r: "findWords h lx g = Inr r" and d: "distinct (map fst r)" by blast
  from found_path[OF assms] obtain c
    where "c \<in> set (findWords_calls h g lx)" "records h lx c" "the_word c = spell g p" by blast
  with findWords_key[OF r] have "spell g p \<in> fst ` set r" by metis
  with d have "length (filter (\<lambda>e. fst e = spell g p) r) = 1" by (rule once_of_distinct)
  with r show ?thesis by blast
qed

theorem findWords_complete_witness:
  "prefix_closed (init ordinal_host
         (utf16 ''cat'' @ [0x0A] @ utf16 ''cats'' @ [0x0A] @ utf16 ''at'' @ [0x0A] @ utf16 ''as''))
   \<and> simple_path [utf16 ''CA'', utf16 ''TS''] [(0, 0), (0, 1), (1, 0)]
   \<and> spell [utf16 ''CA'', utf16 ''TS''] [(0, 0), (0, 1), (1, 0)] = utf16 ''CAT''
   \<and> list_all (\<lambda>k. toLowerCase ordinal_host
                      (spell [utf16 ''CA'', utf16 ''TS''] (take k [(0, 0), (0, 1), (1, 0)]))
                    \<in> prefixDictionary (init ordinal_host
         (utf16 ''cat'' @ [0x0A] @ utf16 ''cats'' @ [0x0A] @ utf16 ''at'' @ [0x0A] @ utf16 ''as'')))
        [1, 2, 3]
   \<and> toLowerCase ordinal_host (utf16 ''CAT'')
       \<in> dictionary (init ordinal_host
         (utf16 ''cat'' @ [0x0A] @ utf16 ''cats'' @ [0x0A] @ utf16 ''at'' @ [0x0A] @ utf16 ''as''))
   \<and> (\<exists>r. findWords ordinal_host (init ordinal_host
         (utf16 ''cat'' @ [0x0A] @ utf16 ''cats'' @ [0x0A] @ utf16 ''at'' @ [0x0A] @ utf16 ''as''))
             [utf16 ''CA'', utf16 ''TS''] = Inr r
          \<and> length (filter (\<lambda>e. fst e = utf16 ''CAT'') r) = 1)"
proof -
  let ?lx = "init ordinal_host
         (utf16 ''cat'' @ [0x0A] @ utf16 ''cats'' @ [0x0A] @ utf16 ''at'' @ [0x0A] @ utf16 ''as'')"
  let ?g = "[utf16 ''CA'', utf16 ''TS'']"
  let ?p = "[(0, 0), (0, 1), (1, 0)] :: path"
  have w: "list_all (\<lambda>w. list_all (\<lambda>c. \<not> is_high c) w)
             [utf16 ''cat'', utf16 ''cats'', utf16 ''at'', utf16 ''as'']" by code_simp
  have d: "dictionary ?lx = set [utf16 ''cat'', utf16 ''cats'', utf16 ''at'', utf16 ''as'']"
    by code_simp
  have a: "prefix_closed ?lx" using w d by (rule init_prefix_closed_plain)
  have b: "simple_path ?g ?p" by code_simp
  have s: "spell ?g ?p = utf16 ''CAT''" by code_simp
  have l: "list_all (\<lambda>k. toLowerCase ordinal_host (spell ?g (take k ?p)) \<in> prefixDictionary ?lx)
             [1, 2, 3]" by code_simp
  have c: "toLowerCase ordinal_host (utf16 ''CAT'') \<in> dictionary ?lx" by code_simp
  have pre: "\<forall>k. 1 \<le> k \<and> k \<le> length ?p
           \<longrightarrow> toLowerCase ordinal_host (spell ?g (take k ?p)) \<in> prefixDictionary ?lx"
  proof (intro allI impI)
    fix k :: nat assume "1 \<le> k \<and> k \<le> length ?p"
    then have "k \<in> set [1, 2, 3]" by auto
    with l show "toLowerCase ordinal_host (spell ?g (take k ?p)) \<in> prefixDictionary ?lx"
      unfolding list_all_iff by blast
  qed
  from c s have c': "toLowerCase ordinal_host (spell ?g ?p) \<in> dictionary ?lx" by (simp only:)
  from findWords_complete[OF b pre c'] s
  have "\<exists>r. findWords ordinal_host ?lx ?g = Inr r
          \<and> length (filter (\<lambda>e. fst e = utf16 ''CAT'') r) = 1" by (simp only:)
  with a b s l c show ?thesis by blast
qed

text \<open>
  The claim as the specification words it fails in two ways. The key is not the
  dictionary word: in the grid \<open>b A B\<close> the word \<open>ab\<close> is spelled by two paths, as \<open>Ab\<close> and
  as \<open>AB\<close>; no key of the result is \<open>ab\<close>, and two keys are \<open>ab\<close> without regard to case. And
  prefix closure does not keep every spelling from being pruned: with the dictionary word
  alpha sigma alpha and the grid of the capitals \<open>U+0391 U+03A3 U+0391\<close>, the search stops at
  the two letters \<open>U+0391 U+03A3\<close>, which \<open>toLowerCase\<close> turns into alpha and the final sigma,
  no prefix of the word; the result is empty.
\<close>

theorem word_not_once:
  "prefix_closed (init ordinal_host (utf16 ''ab''))
   \<and> utf16 ''ab'' \<in> dictionary (init ordinal_host (utf16 ''ab''))
   \<and> simple_path [utf16 ''bAB''] [(0, 1), (0, 0)]
   \<and> toLowerCase ordinal_host (spell [utf16 ''bAB''] [(0, 1), (0, 0)]) = utf16 ''ab''
   \<and> findWords ordinal_host (init ordinal_host (utf16 ''ab'')) [utf16 ''bAB'']
       = Inr [(utf16 ''AB'', [(0, 1), (0, 2)]), (utf16 ''Ab'', [(0, 1), (0, 0)])]
   \<and> length (filter (\<lambda>e. fst e = utf16 ''ab'')
               [(utf16 ''AB'', [(0, 1), (0, 2)]), (utf16 ''Ab'', [(0, 1), (0, 0 :: int) :: coord])]) = 0
   \<and> length (filter (\<lambda>e. toLowerCase ordinal_host (fst e) = utf16 ''ab'')
               [(utf16 ''AB'', [(0, 1), (0, 2)]), (utf16 ''Ab'', [(0, 1), (0, 0 :: int) :: coord])]) = 2
   \<and> prefix_closed (init ordinal_host [0x3B1, 0x3C3, 0x3B1])
   \<and> [0x3B1, 0x3C3, 0x3B1] \<in> dictionary (init ordinal_host [0x3B1, 0x3C3, 0x3B1])
   \<and> simple_path [[0x391, 0x3A3, 0x391]] [(0, 0), (0, 1), (0, 2)]
   \<and> toLowerCase ordinal_host (spell [[0x391, 0x3A3, 0x391]] [(0, 0), (0, 1), (0, 2)])
       = [0x3B1, 0x3C3, 0x3B1]
   \<and> toLowerCase ordinal_host (spell [[0x391, 0x3A3, 0x391]] [(0, 0), (0, 1)])
       = [0x3B1, 0x3C2]
   \<and> findWords ordinal_host (init ordinal_host [0x3B1, 0x3C3, 0x3B1]) [[0x391, 0x3A3, 0x391]]
       = Inr []"
proof -
  have w1: "list_all (\<lambda>w. list_all (\<lambda>c. \<not> is_high c) w) [utf16 ''ab'']" by code_simp
  have d1: "dictionary (init ordinal_host (utf16 ''ab'')) = set [utf16 ''ab'']" by code_simp
  have a: "prefix_closed (init ordinal_host (utf16 ''ab''))"
    using w1 d1 by (rule init_prefix_closed_plain)
  have b: "utf16 ''ab'' \<in> dictionary (init ordinal_host (utf16 ''ab''))" by code_simp
  have c: "simple_path [utf16 ''bAB''] [(0, 1), (0, 0)]" by code_simp
  have d: "toLowerCase ordinal_host (spell [utf16 ''bAB''] [(0, 1), (0, 0)]) = utf16 ''ab''"
    by code_simp
  have e: "findWords ordinal_host (init ordinal_host (utf16 ''ab'')) [utf16 ''bAB'']
       = Inr [(utf16 ''AB'', [(0, 1), (0, 2)]), (utf16 ''Ab'', [(0, 1), (0, 0)])]" by code_simp
  have f: "length (filter (\<lambda>e. fst e = utf16 ''ab'')
               [(utf16 ''AB'', [(0, 1), (0, 2)]), (utf16 ''Ab'', [(0, 1), (0, 0 :: int) :: coord])]) = 0"
    by code_simp
  have h: "length (filter (\<lambda>e. toLowerCase ordinal_host (fst e) = utf16 ''ab'')
               [(utf16 ''AB'', [(0, 1), (0, 2)]), (utf16 ''Ab'', [(0, 1), (0, 0 :: int) :: coord])]) = 2"
    by code_simp
  have w2: "list_all (\<lambda>w. list_all (\<lambda>c. \<not> is_high c) w) [[0x3B1, 0x3C3, 0x3B1]]" by code_simp
  have d2: "dictionary (init ordinal_host [0x3B1, 0x3C3, 0x3B1]) = set [[0x3B1, 0x3C3, 0x3B1]]"
    by code_simp
  have a': "prefix_closed (init ordinal_host [0x3B1, 0x3C3, 0x3B1])"
    using w2 d2 by (rule init_prefix_closed_plain)
  have b': "[0x3B1, 0x3C3, 0x3B1] \<in> dictionary (init ordinal_host [0x3B1, 0x3C3, 0x3B1])"
    by code_simp
  have c': "simple_path [[0x391, 0x3A3, 0x391]] [(0, 0), (0, 1), (0, 2)]" by code_simp
  have d': "toLowerCase ordinal_host (spell [[0x391, 0x3A3, 0x391]] [(0, 0), (0, 1), (0, 2)])
       = [0x3B1, 0x3C3, 0x3B1]" by code_simp
  have p': "toLowerCase ordinal_host (spell [[0x391, 0x3A3, 0x391]] [(0, 0), (0, 1)])
       = [0x3B1, 0x3C2]" by code_simp
  have e': "findWords ordinal_host (init ordinal_host [0x3B1, 0x3C3, 0x3B1])
       [[0x391, 0x3A3, 0x391]] = Inr []" by code_simp
  from a b c d e f h a' b' c' d' p' e' show ?thesis by blast
qed

subsection \<open>The dictionary and its prefixes\<close>




subsection \<open>Pruning\<close>

text \<open>
  Claim C6. At an invocation of \<open>dfs\<close> whose lowercased word is not in \<open>prefixDictionary\<close>
  the branch is given up at once: \<open>words\<close> is returned as it was, whether or not the
  lowercased word is in \<open>dictionary\<close>, and the invocation makes no recursive call (it is
  the only entry of its list of invocations).
\<close>

theorem dfs_pruned:
  assumes "toLowerCase h currentWord \<notin> prefixDictionary lx"
  shows "dfs h g lx x y path currentWord visited ws = Inr ws \<and>
    dfs_calls h g lx d x y path currentWord visited =
      [\<lparr>depth = d, at_x = x, at_y = y, the_path = path, the_word = currentWord,
        the_visited = visited\<rparr>]"
  using assms by (simp add: dfs.simps dfs_calls.simps)

theorem dfs_pruned_witness:
  "toLowerCase ordinal_host (utf16 ''A'')
     \<in> dictionary \<lparr>dictionary = {utf16 ''a''}, prefixDictionary = {}, dictionaryLoaded = True\<rparr>
   \<and> toLowerCase ordinal_host (utf16 ''A'')
     \<notin> prefixDictionary \<lparr>dictionary = {utf16 ''a''}, prefixDictionary = {}, dictionaryLoaded = True\<rparr>
   \<and> dfs ordinal_host [utf16 ''AB'']
        \<lparr>dictionary = {utf16 ''a''}, prefixDictionary = {}, dictionaryLoaded = True\<rparr>
        0 0 [(0, 0)] (utf16 ''A'') {''0,0''} [] = Inr []
   \<and> dfs_calls ordinal_host [utf16 ''AB'']
        \<lparr>dictionary = {utf16 ''a''}, prefixDictionary = {}, dictionaryLoaded = True\<rparr>
        0 0 0 [(0, 0)] (utf16 ''A'') {''0,0''} =
      [\<lparr>depth = 0, at_x = 0, at_y = 0, the_path = [(0, 0)], the_word = utf16 ''A'',
        the_visited = {''0,0''}\<rparr>]"
proof -
  let ?lx = "\<lparr>dictionary = {utf16 ''a''}, prefixDictionary = {}, dictionaryLoaded = True\<rparr>"
  have a: "toLowerCase ordinal_host (utf16 ''A'') \<in> dictionary ?lx" by code_simp
  have b: "toLowerCase ordinal_host (utf16 ''A'') \<notin> prefixDictionary ?lx" by simp
  from dfs_pruned[OF b, of "[utf16 ''AB'']" 0 0 "[(0, 0)]" "{''0,0''}" "[]" 0] a b show ?thesis
    by blast
qed

subsection \<open>The grid without rows\<close>

text \<open>
  Claim C7. On a grid with no rows \<open>findWords\<close> returns the empty sequence, and does not
  throw, whatever the dictionary.
\<close>

theorem findWords_no_rows: "findWords h lx [] = Inr []"
  by (simp add: findWords_def array_sort_def)

theorem findWords_no_rows_witness:
  "findWords ordinal_host (init ordinal_host (utf16 ''cat'')) [] = Inr []"
  using findWords_no_rows[of ordinal_host "init ordinal_host (utf16 ''cat'')"] by simp

subsection \<open>Termination\<close>

text \<open>
  Claim C8. \<open>dfs\<close> and \<open>dfs_loop\<close> are total functions: their termination is proved above
  from the number of positions of the grid outside the visited set, which every
  recursive call of \<open>dfs\<close> lowers. So \<open>findWords\<close> returns, and its result is the sorted
  map built by its invocations of \<open>dfs\<close>. At every such invocation the visited set has one
  cell more than there are \<open>dfs\<close> frames below it, and the number of frames below it is
  less than the number of usable cells. (The call stack of the host is taken to be as
  deep as needed.)
\<close>

theorem findWords_terminates:
  "findWords h lx g
     = Inr (array_sort (compare_entries (localeCompare h))
              (fold (apply_call h lx) (findWords_calls h g lx) []))
   \<and> (\<forall>c \<in> set (findWords_calls h g lx).
         card (the_visited c) = Suc (depth c) \<and> depth c < length (usable_cells g))"
proof
  show "findWords h lx g
     = Inr (array_sort (compare_entries (localeCompare h))
              (fold (apply_call h lx) (findWords_calls h g lx) []))"
    by (rule findWords_eq_calls)
  show "\<forall>c \<in> set (findWords_calls h g lx).
         card (the_visited c) = Suc (depth c) \<and> depth c < length (usable_cells g)"
  proof
    fix c assume "c \<in> set (findWords_calls h g lx)"
    then have ok: "node_ok g c" by (rule findWords_calls_ok)
    then have sp: "simple_path g (the_path c)" and v: "the_visited c = keys_of (the_path c)"
      and l: "length (the_path c) = Suc (depth c)"
      by (simp_all add: node_ok_def)
    from sp have "distinct (the_path c)" by (simp add: simple_path_def)
    with v l have "card (the_visited c) = Suc (depth c)"
      by (simp add: card_keys_of distinct_card)
    moreover from simple_path_length[OF sp] l have "depth c < length (usable_cells g)" by simp
    ultimately show "card (the_visited c) = Suc (depth c) \<and> depth c < length (usable_cells g)"
      by simp
  qed
qed

theorem findWords_terminates_witness:
  "findWords ordinal_host (init ordinal_host (utf16 ''abc'')) [utf16 ''AB'', utf16 ''C'']
     = Inr [(utf16 ''ABC'', [(0, 0), (0, 1), (1, 0)])]
   \<and> map depth (findWords_calls ordinal_host [utf16 ''AB'', utf16 ''C'']
                  (init ordinal_host (utf16 ''abc''))) = [0, 1, 2, 1, 0, 0]
   \<and> length (usable_cells [utf16 ''AB'', utf16 ''C'']) = 3
   \<and> list_all (\<lambda>c. card (the_visited c) = Suc (depth c)
                   \<and> depth c < length (usable_cells [utf16 ''AB'', utf16 ''C'']))
        (findWords_calls ordinal_host [utf16 ''AB'', utf16 ''C'']
           (init ordinal_host (utf16 ''abc'')))"
proof -
  have a: "findWords ordinal_host (init ordinal_host (utf16 ''abc'')) [utf16 ''AB'', utf16 ''C'']
     = Inr [(utf16 ''ABC'', [(0, 0), (0, 1), (1, 0)])]" by code_simp
  have b: "map depth (findWords_calls ordinal_host [utf16 ''AB'', utf16 ''C'']
                  (init ordinal_host (utf16 ''abc''))) = [0, 1, 2, 1, 0, 0]"
    by code_simp
  have c: "length (usable_cells [utf16 ''AB'', utf16 ''C'']) = 3" by code_simp
  from findWords_terminates[of ordinal_host "init ordinal_host (utf16 ''abc'')"
      "[utf16 ''AB'', utf16 ''C'']"]
  have "list_all (\<lambda>c. card (the_visited c) = Suc (depth c)
                   \<and> depth c < length (usable_cells [utf16 ''AB'', utf16 ''C'']))
        (findWords_calls ordinal_host [utf16 ''AB'', utf16 ''C'']
           (init ordinal_host (utf16 ''abc'')))"
    unfolding list_all_iff by (rule conjunct2)
  with a b c show ?thesis by blast
qed

subsection \<open>Rows of unequal length\<close>

text \<open>
  Claim C9. Whatever the lengths of the rows, \<open>findWords\<close> returns a result and throws
  nothing. The test of a neighbour never throws; a neighbour in a row of the grid whose
  column is at or beyond the length of that row is skipped; and a neighbour that is not
  skipped lies inside its row, so the read of its letter that follows succeeds.
\<close>

theorem findWords_ragged_safe:
  "(\<exists>r. findWords h lx g = Inr r)
   \<and> (\<forall>visited nx ny. skip g visited nx ny \<noteq> Inl TypeError)
   \<and> (\<forall>visited nx ny. 0 \<le> nx \<and> nx < int (length g) \<and> int (length (g ! nat nx)) \<le> ny
         \<longrightarrow> skip g visited nx ny = Inr True)
   \<and> (\<forall>visited nx ny. skip g visited nx ny = Inr False
         \<longrightarrow> 0 \<le> nx \<and> nx < int (length g) \<and> 0 \<le> ny \<and> ny < int (length (g ! nat nx))
             \<and> cell g nx ny = Inr (g ! nat nx ! nat ny))"
proof (intro conjI allI impI)
  show "\<exists>r. findWords h lx g = Inr r" by (simp add: findWords_eq_calls)
next
  fix visited nx ny
  show "skip g visited nx ny \<noteq> Inl TypeError" by (rule skip_no_error)
next
  fix visited nx ny
  assume "0 \<le> nx \<and> nx < int (length g) \<and> int (length (g ! nat nx)) \<le> ny"
  then show "skip g visited nx ny = Inr True" by (auto simp: skip_def row_at_def)
next
  fix visited nx ny
  assume s: "skip g visited nx ny = Inr False"
  from skip_False_usable[OF s] show "0 \<le> nx" "nx < int (length g)" "0 \<le> ny"
    "ny < int (length (g ! nat nx))" by (simp_all add: usable_def)
  from skip_False_cell[OF s] show "cell g nx ny = Inr (g ! nat nx ! nat ny)" .
qed

theorem findWords_ragged_safe_witness:
  "findWords ordinal_host (init ordinal_host (utf16 ''ac'')) [utf16 ''AB'', utf16 ''C'']
     = Inr [(utf16 ''AC'', [(0, 0), (1, 0)])]
   \<and> length ([utf16 ''AB'', utf16 ''C''] ! 0) \<noteq> length ([utf16 ''AB'', utf16 ''C''] ! 1)
   \<and> skip [utf16 ''AB'', utf16 ''C''] {''0,1''} 1 1 = Inr True
   \<and> skip [utf16 ''AB'', utf16 ''C''] {''0,1''} 1 0 = Inr False
   \<and> cell [utf16 ''AB'', utf16 ''C''] 1 0 = Inr 0x43"
proof -
  let ?g = "[utf16 ''AB'', utf16 ''C'']"
  have a: "findWords ordinal_host (init ordinal_host (utf16 ''ac'')) ?g
     = Inr [(utf16 ''AC'', [(0, 0), (1, 0)])]"
    by code_simp
  have b: "length (?g ! 0) \<noteq> length (?g ! 1)" by (simp add: utf16_def)
  have h: "0 \<le> (1 :: int) \<and> (1 :: int) < int (length ?g) \<and> int (length (?g ! nat 1)) \<le> 1"
    by (simp add: utf16_def)
  have f: "skip ?g {''0,1''} 1 0 = Inr False" by code_simp
  have v: "?g ! nat 1 ! nat 0 = 0x43" by code_simp
  note t = findWords_ragged_safe[of ordinal_host "init ordinal_host (utf16 ''ac'')" ?g]
  from t h have c: "skip ?g {''0,1''} 1 1 = Inr True" by blast
  from t f have "cell ?g 1 0 = Inr (?g ! nat 1 ! nat 0)" by blast
  with v have d: "cell ?g 1 0 = Inr 0x43" by (simp only:)
  from a b c f d show ?thesis by blast
qed

subsection \<open>The case of the keys\<close>

text \<open>
  Claim C10, as the code has it. The keys of the result are the accumulated strings in
  the case of the grid, and only equal strings share an entry: two simple adjacent paths
  that spell the same dictionary word in different cases, and of which no initial
  segment is pruned (the lowercased letters of each are in the prefix set), both have
  their spelling among the keys, as two entries, and no key occurs twice.
\<close>

theorem keys_case_sensitive:
  assumes "simple_path g p" and "simple_path g q"
    and "\<forall>k. 1 \<le> k \<and> k \<le> length p
           \<longrightarrow> toLowerCase h (spell g (take k p)) \<in> prefixDictionary lx"
    and "\<forall>k. 1 \<le> k \<and> k \<le> length q
           \<longrightarrow> toLowerCase h (spell g (take k q)) \<in> prefixDictionary lx"
    and "toLowerCase h (spell g p) \<in> dictionary lx"
    and "toLowerCase h (spell g q) = toLowerCase h (spell g p)"
    and "spell g p \<noteq> spell g q"
  shows "\<exists>r. findWords h lx g = Inr r \<and> distinct (map fst r)
             \<and> spell g p \<in> fst ` set r \<and> spell g q \<in> fst ` set r"
proof -
  from findWords_map_of[of h lx g] obtain r
    where r: "findWords h lx g = Inr r" and d: "distinct (map fst r)" by blast
  from found_path[OF assms(1,3,5)] obtain c
    where "c \<in> set (findWords_calls h g lx)" "records h lx c" "the_word c = spell g p" by blast
  with findWords_key[OF r] have kp: "spell g p \<in> fst ` set r" by metis
  from assms(5,6) have "toLowerCase h (spell g q) \<in> dictionary lx" by simp
  from found_path[OF assms(2,4) this] obtain c'
    where "c' \<in> set (findWords_calls h g lx)" "records h lx c'" "the_word c' = spell g q" by blast
  with findWords_key[OF r] have kq: "spell g q \<in> fst ` set r" by metis
  from r d kp kq show ?thesis by blast
qed

theorem keys_case_sensitive_witness:
  "simple_path [utf16 ''CAT'', utf16 '' at''] [(0, 0), (0, 1), (0, 2)]
   \<and> simple_path [utf16 ''CAT'', utf16 '' at''] [(0, 0), (1, 1), (1, 2)]
   \<and> spell [utf16 ''CAT'', utf16 '' at''] [(0, 0), (0, 1), (0, 2)] = utf16 ''CAT''
   \<and> spell [utf16 ''CAT'', utf16 '' at''] [(0, 0), (1, 1), (1, 2)] = utf16 ''Cat''
   \<and> list_all (\<lambda>k. toLowerCase ordinal_host
                      (spell [utf16 ''CAT'', utf16 '' at''] (take k [(0, 0), (0, 1), (0, 2)]))
                    \<in> prefixDictionary (init ordinal_host (utf16 ''cat''))) [1, 2, 3]
   \<and> list_all (\<lambda>k. toLowerCase ordinal_host
                      (spell [utf16 ''CAT'', utf16 '' at''] (take k [(0, 0), (1, 1), (1, 2)]))
                    \<in> prefixDictionary (init ordinal_host (utf16 ''cat''))) [1, 2, 3]
   \<and> toLowerCase ordinal_host (utf16 ''CAT'') \<in> dictionary (init ordinal_host (utf16 ''cat''))
   \<and> toLowerCase ordinal_host (utf16 ''Cat'') = toLowerCase ordinal_host (utf16 ''CAT'')
   \<and> findWords ordinal_host (init ordinal_host (utf16 ''cat'')) [utf16 ''CAT'', utf16 '' at'']
       = Inr [(utf16 ''CAT'', [(0, 0), (0, 1), (0, 2)]), (utf16 ''CAt'', [(0, 0), (0, 1), (1, 2)]),
              (utf16 ''CaT'', [(0, 0), (1, 1), (0, 2)]), (utf16 ''Cat'', [(0, 0), (1, 1), (1, 2)])]
   \<and> (\<exists>r. findWords ordinal_host (init ordinal_host (utf16 ''cat''))
             [utf16 ''CAT'', utf16 '' at''] = Inr r
          \<and> distinct (map fst r) \<and> utf16 ''CAT'' \<in> fst ` set r \<and> utf16 ''Cat'' \<in> fst ` set r)"
proof -
  let ?g = "[utf16 ''CAT'', utf16 '' at'']"
  let ?lx = "init ordinal_host (utf16 ''cat'')"
  let ?p = "[(0, 0), (0, 1), (0, 2)] :: path"
  let ?q = "[(0, 0), (1, 1), (1, 2)] :: path"
  have b: "simple_path ?g ?p" by code_simp
  have c: "simple_path ?g ?q" by code_simp
  have sp: "spell ?g ?p = utf16 ''CAT''" by code_simp
  have sq: "spell ?g ?q = utf16 ''Cat''" by code_simp
  have lp: "list_all (\<lambda>k. toLowerCase ordinal_host (spell ?g (take k ?p)) \<in> prefixDictionary ?lx)
              [1, 2, 3]" by code_simp
  have lq: "list_all (\<lambda>k. toLowerCase ordinal_host (spell ?g (take k ?q)) \<in> prefixDictionary ?lx)
              [1, 2, 3]" by code_simp
  have d: "toLowerCase ordinal_host (utf16 ''CAT'') \<in> dictionary ?lx" by code_simp
  have e: "toLowerCase ordinal_host (utf16 ''Cat'') = toLowerCase ordinal_host (utf16 ''CAT'')"
    by code_simp
  have f: "utf16 ''CAT'' \<noteq> utf16 ''Cat''" by code_simp
  have r: "findWords ordinal_host ?lx ?g
       = Inr [(utf16 ''CAT'', [(0, 0), (0, 1), (0, 2)]), (utf16 ''CAt'', [(0, 0), (0, 1), (1, 2)]),
              (utf16 ''CaT'', [(0, 0), (1, 1), (0, 2)]), (utf16 ''Cat'', [(0, 0), (1, 1), (1, 2)])]"
    by code_simp
  have pp: "\<forall>k. 1 \<le> k \<and> k \<le> length ?p
           \<longrightarrow> toLowerCase ordinal_host (spell ?g (take k ?p)) \<in> prefixDictionary ?lx"
  proof (intro allI impI)
    fix k :: nat assume "1 \<le> k \<and> k \<le> length ?p"
    then have "k \<in> set [1, 2, 3]" by auto
    with lp show "toLowerCase ordinal_host (spell ?g (take k ?p)) \<in> prefixDictionary ?lx"
      unfolding list_all_iff by blast
  qed
  have pq: "\<forall>k. 1 \<le> k \<and> k \<le> length ?q
           \<longrightarrow> toLowerCase ordinal_host (spell ?g (take k ?q)) \<in> prefixDictionary ?lx"
  proof (intro allI impI)
    fix k :: nat assume "1 \<le> k \<and> k \<le> length ?q"
    then have "k \<in> set [1, 2, 3]" by auto
    with lq show "toLowerCase ordinal_host (spell ?g (take k ?q)) \<in> prefixDictionary ?lx"
      unfolding list_all_iff by blast
  qed
  from d sp have d': "toLowerCase ordinal_host (spell ?g ?p) \<in> dictionary ?lx" by (simp only:)
  from e sp sq have e': "toLowerCase ordinal_host (spell ?g ?q)
      = toLowerCase ordinal_host (spell ?g ?p)" by (simp only:)
  have f': "spell ?g ?p \<noteq> spell ?g ?q" unfolding sp sq by (rule f)
  from keys_case_sensitive[OF b c pp pq d' e' f'] sp sq
  have "\<exists>r. findWords ordinal_host ?lx ?g = Inr r
          \<and> distinct (map fst r) \<and> utf16 ''CAT'' \<in> fst ` set r \<and> utf16 ''Cat'' \<in> fst ` set r"
    by (simp only:)
  with b c sp sq lp lq d e r show ?thesis by blast
qed

text \<open>
  The claim as the specification words it, for every two such paths, fails where one of
  them is pruned. With the dictionary word alpha sigma alpha, the row of the capitals
  \<open>U+0391 U+03A3 U+0391\<close> and a small sigma \<open>U+03C3\<close> below the capital one, the path along
  the row and the path through the small sigma spell the word in different cases, but
  the first is given up at \<open>U+0391 U+03A3\<close>, lowercased to alpha and the final sigma: the
  result has the one key \<open>U+0391 U+03C3 U+0391\<close>.
\<close>

theorem cased_spelling_pruned:
  "prefix_closed (init ordinal_host [0x3B1, 0x3C3, 0x3B1])
   \<and> simple_path [[0x391, 0x3A3, 0x391], [0x20, 0x3C3]] [(0, 0), (0, 1), (0, 2)]
   \<and> simple_path [[0x391, 0x3A3, 0x391], [0x20, 0x3C3]] [(0, 0), (1, 1), (0, 2)]
   \<and> spell [[0x391, 0x3A3, 0x391], [0x20, 0x3C3]] [(0, 0), (0, 1), (0, 2)] = [0x391, 0x3A3, 0x391]
   \<and> spell [[0x391, 0x3A3, 0x391], [0x20, 0x3C3]] [(0, 0), (1, 1), (0, 2)] = [0x391, 0x3C3, 0x391]
   \<and> toLowerCase ordinal_host [0x391, 0x3A3, 0x391] = [0x3B1, 0x3C3, 0x3B1]
   \<and> toLowerCase ordinal_host [0x391, 0x3C3, 0x391] = [0x3B1, 0x3C3, 0x3B1]
   \<and> [0x3B1, 0x3C3, 0x3B1] \<in> dictionary (init ordinal_host [0x3B1, 0x3C3, 0x3B1])
   \<and> findWords ordinal_host (init ordinal_host [0x3B1, 0x3C3, 0x3B1])
        [[0x391, 0x3A3, 0x391], [0x20, 0x3C3]]
       = Inr [([0x391, 0x3C3, 0x391], [(0, 2), (1, 1), (0, 0)])]"
proof -
  let ?g = "[[0x391, 0x3A3, 0x391], [0x20, 0x3C3]] :: grid"
  let ?lx = "init ordinal_host [0x3B1, 0x3C3, 0x3B1]"
  have w: "list_all (\<lambda>w. list_all (\<lambda>c. \<not> is_high c) w) [[0x3B1, 0x3C3, 0x3B1]]" by code_simp
  have d: "dictionary ?lx = set [[0x3B1, 0x3C3, 0x3B1]]" by code_simp
  have a: "prefix_closed ?lx" using w d by (rule init_prefix_closed_plain)
  have b: "simple_path ?g [(0, 0), (0, 1), (0, 2)]" by code_simp
  have c: "simple_path ?g [(0, 0), (1, 1), (0, 2)]" by code_simp
  have sp: "spell ?g [(0, 0), (0, 1), (0, 2)] = [0x391, 0x3A3, 0x391]" by code_simp
  have sq: "spell ?g [(0, 0), (1, 1), (0, 2)] = [0x391, 0x3C3, 0x391]" by code_simp
  have e: "toLowerCase ordinal_host [0x391, 0x3A3, 0x391] = [0x3B1, 0x3C3, 0x3B1]" by code_simp
  have f: "toLowerCase ordinal_host [0x391, 0x3C3, 0x391] = [0x3B1, 0x3C3, 0x3B1]" by code_simp
  have m: "[0x3B1, 0x3C3, 0x3B1] \<in> dictionary ?lx" by code_simp
  have r: "findWords ordinal_host ?lx ?g = Inr [([0x391, 0x3C3, 0x391], [(0, 2), (1, 1), (0, 0)])]"
    by code_simp
  from a b c sp sq e f m r show ?thesis by blast
qed

end
